theory Spec2Isabelle
  imports Complex_Main "HOL-Library.Word" "HOL-Library.Multiset"
begin

unbundle bit_operations_syntax

section \<open>Data model\<close>

type_synonym u8 = "8 word"
type_synonym u32 = "32 word"

text \<open>
  \<^verbatim>\<open>Matrix<T>\<close> of \<^verbatim>\<open>matrix.h\<close>: a row count, a column count and a flat buffer;
  element \<open>(i, j)\<close> lives at \<open>buf[i * cols + j]\<close>.  The C++ accessor does no bounds
  check; every access made by the functions below is inside the buffer under the
  hypotheses of the theorems that use it.
\<close>

record 'a Matrix =
  rows :: nat
  cols :: nat
  buf :: "'a list"

definition Matrix_init :: "nat \<Rightarrow> nat \<Rightarrow> 'a \<Rightarrow> 'a Matrix" where
  "Matrix_init r c d = \<lparr>rows = r, cols = c, buf = replicate (r * c) d\<rparr>"

definition mat_at :: "'a Matrix \<Rightarrow> nat \<times> nat \<Rightarrow> 'a" where
  "mat_at m ij = buf m ! (fst ij * cols m + snd ij)"

definition mat_put :: "'a Matrix \<Rightarrow> nat \<times> nat \<Rightarrow> 'a \<Rightarrow> 'a Matrix" where
  "mat_put m ij v = m\<lparr>buf := (buf m)[fst ij * cols m + snd ij := v]\<rparr>"

definition mat_row :: "'a Matrix \<Rightarrow> nat \<Rightarrow> 'a list" where
  "mat_row m i = take (cols m) (drop (i * cols m) (buf m))"

section \<open>SequenceDistance (tree.cpp)\<close>

text \<open>
  \<^verbatim>\<open>hamming_distance\<close> walks \<open>a\<close> to its end and advances an iterator into \<open>b\<close> in
  step, without looking at the length of \<open>b\<close>.  When \<open>b\<close> is shorter than \<open>a\<close> the
  source reads past the end of \<open>b\<close> (undefined behaviour, no exception): that is the
  value \<open>None\<close>.  The counter is a \<^verbatim>\<open>uint32_t\<close>.
\<close>

fun hamming_distance :: "string \<Rightarrow> string \<Rightarrow> u32 option" where
  "hamming_distance [] b = Some 0"
| "hamming_distance (x # a) [] = None"
| "hamming_distance (x # a) (y # b) =
     (case hamming_distance a b of
        None \<Rightarrow> None
      | Some d \<Rightarrow> Some (d + (if x \<noteq> y then 1 else 0)))"

text \<open>The index pairs \<open>(i, j)\<close>, \<open>j < i < n\<close>, in the order of the first loop nest.\<close>

definition lower_pairs :: "nat \<Rightarrow> (nat \<times> nat) list" where
  "lower_pairs n = concat (map (\<lambda>i. map (\<lambda>j. (i, j)) [0..<i]) [0..<n])"

fun fill_distances :: "string list \<Rightarrow> (nat \<times> nat) list \<Rightarrow> u32 Matrix \<Rightarrow> u32 Matrix option" where
  "fill_distances sequences [] dism = Some dism"
| "fill_distances sequences ((i, j) # ps) dism =
     (case hamming_distance (sequences ! i) (sequences ! j) of
        None \<Rightarrow> None
      | Some d \<Rightarrow> fill_distances sequences ps (mat_put (mat_put dism (j, i) d) (i, j) d))"

text \<open>
  The second loop nest: every entry is shifted left by 16 and the root distance of its
  column is or-ed in.  \<open>root_distance\<close> is a copy of row 0 taken before the loop.
\<close>

definition pack_root :: "u32 Matrix \<Rightarrow> u32 Matrix" where
  "pack_root dism =
     (let root_distance = mat_row dism 0
      in dism\<lparr>buf := concat (map (\<lambda>i. map (\<lambda>j. push_bit 16 (mat_at dism (i, j)) OR root_distance ! j)
                                        [0..<cols dism]) [0..<rows dism])\<rparr>)"

definition make_distance_matrix :: "string list \<Rightarrow> u32 Matrix option" where
  "make_distance_matrix sequences =
     (case fill_distances sequences (lower_pairs (length sequences))
             (Matrix_init (length sequences) (length sequences) 0) of
        None \<Rightarrow> None
      | Some dism \<Rightarrow> Some (pack_root dism))"

text \<open>The Hamming distance of the specification: the number of positions that differ.\<close>

definition mismatches :: "string \<Rightarrow> string \<Rightarrow> nat" where
  "mismatches a b = length (filter (\<lambda>(x, y). x \<noteq> y) (zip a b))"

section \<open>Edges and the Markov model (tree.h, tree.cpp)\<close>

text \<open>
  \<^verbatim>\<open>struct Edge\<close>.  The indices are \<^verbatim>\<open>uint32_t\<close> positions in the sequence list.  The
  \<^verbatim>\<open>float\<close> weight is kept as the exact quotient the source divides out, \<open>None\<close>
  standing for the NaN of \<open>0 / 0\<close>; the rounding of the division is not modelled.
\<close>

record Edge =
  parent :: nat
  child :: nat
  distance :: u32
  weight :: "rat option"

text \<open>
  What a call can end in besides a value: the \<^verbatim>\<open>std::domain_error\<close> or
  \<^verbatim>\<open>std::out_of_range\<close> the source throws, or a read outside a string or vector
  (undefined behaviour in the source, no exception).
\<close>

datatype error = DomainError | OutOfRange | ReadOutside

text \<open>\<^verbatim>\<open>std::string::npos\<close>, the largest \<^verbatim>\<open>size_t\<close>.\<close>

definition npos :: nat where
  "npos = 2 ^ 64 - 1"

text \<open>
  The lookup table of \<^verbatim>\<open>infer_markov_model\<close>: \<^verbatim>\<open>std::array<size_t, 256> lut = {0}\<close>
  sets all 256 slots to 0, then the slots of A, C, G and T are assigned 0, 1, 2 and 3.
\<close>

definition lut :: "char \<Rightarrow> nat" where
  "lut ch = (if ch = CHR ''A'' then 0
             else if ch = CHR ''C'' then 1
             else if ch = CHR ''G'' then 2
             else if ch = CHR ''T'' then 3
             else 0)"

text \<open>
  One pass of the inner loop body: the counts are \<^verbatim>\<open>double\<close>s that only ever receive
  \<open>+= 1.0\<close>, kept here as naturals.
\<close>

definition tally_site :: "nat Matrix \<times> nat list \<Rightarrow> char \<Rightarrow> char \<Rightarrow> error + nat Matrix \<times> nat list" where
  "tally_site acc pnt cnt =
     (let c = lut pnt; r = lut cnt
      in if c = npos \<or> r = npos then Inl DomainError
         else Inr (mat_put (fst acc) (r, c) (mat_at (fst acc) (r, c) + 1),
                   (snd acc)[c := snd acc ! c + 1]))"

text \<open>
  The inner loop runs over the positions of the parent sequence and reads the child
  sequence at the same positions.
\<close>

fun tally_edge :: "nat Matrix \<times> nat list \<Rightarrow> string \<Rightarrow> string \<Rightarrow> error + nat Matrix \<times> nat list" where
  "tally_edge acc [] cnts = Inr acc"
| "tally_edge acc (p # pnts) [] = Inl ReadOutside"
| "tally_edge acc (p # pnts) (c # cnts) =
     (case tally_site acc p c of
        Inl e \<Rightarrow> Inl e
      | Inr acc' \<Rightarrow> tally_edge acc' pnts cnts)"

fun tally_edges :: "string list \<Rightarrow> nat Matrix \<times> nat list \<Rightarrow> Edge list \<Rightarrow> error + nat Matrix \<times> nat list" where
  "tally_edges sequences acc [] = Inr acc"
| "tally_edges sequences acc (e # adj_list) =
     (if parent e < length sequences \<and> child e < length sequences
      then (case tally_edge acc (sequences ! parent e) (sequences ! child e) of
              Inl err \<Rightarrow> Inl err
            | Inr acc' \<Rightarrow> tally_edges sequences acc' adj_list)
      else Inl ReadOutside)"

text \<open>
  The closing loop: a column without observations becomes a unit column, every other
  column is divided by its sum (exactly, here).
\<close>

definition normalise_column :: "nat Matrix \<Rightarrow> nat list \<Rightarrow> nat \<Rightarrow> nat \<Rightarrow> rat" where
  "normalise_column m csums r c =
     (if csums ! c = 0 then (if r = c then 1 else of_nat (mat_at m (r, c)))
      else of_nat (mat_at m (r, c)) / of_nat (csums ! c))"

definition infer_markov_model :: "string list \<Rightarrow> Edge list \<Rightarrow> error + rat Matrix" where
  "infer_markov_model sequences adj_list =
     (case tally_edges sequences (Matrix_init 4 4 0, replicate 4 0) adj_list of
        Inl err \<Rightarrow> Inl err
      | Inr (m, csums) \<Rightarrow>
          Inr \<lparr>rows = 4, cols = 4,
               buf = concat (map (\<lambda>r. map (\<lambda>c. normalise_column m csums r c) [0..<4]) [0..<4])\<rparr>)"

section \<open>The work split of the force computation (network.cpp)\<close>

text \<open>
  \<^verbatim>\<open>Network::simulate_step\<close> hands worker \<open>i\<close> of \<open>n_workers\<close> the linear indices from
  \<open>i * chunk\<close> up to \<open>(i == ptrs_.size() - 1) ? ptrs_.size() : (i + 1) * chunk\<close>, with
  \<open>chunk = ptrs_.size() * (ptrs_.size() - 1) / 2 / n_workers\<close>.  \<open>n\<close> is \<open>ptrs_.size()\<close>,
  at least 1 in what follows (for 0 the subtraction wraps in the source);
  \<open>n_workers\<close> is at least 1 by \<^verbatim>\<open>init_simulation\<close>.
\<close>

definition chunk :: "nat \<Rightarrow> nat \<Rightarrow> nat" where
  "chunk n n_workers = n * (n - 1) div 2 div n_workers"

definition worker_range :: "nat \<Rightarrow> nat \<Rightarrow> nat \<Rightarrow> nat \<times> nat" where
  "worker_range n n_workers i =
     (i * chunk n n_workers, if i = n - 1 then n else (i + 1) * chunk n n_workers)"

definition simulate_step_ranges :: "nat \<Rightarrow> nat \<Rightarrow> (nat \<times> nat) list" where
  "simulate_step_ranges n n_workers = map (worker_range n n_workers) [0..<n_workers]"

text \<open>
  \<^verbatim>\<open>simulate_step_worker\<close> visits \<open>li = lo, lo + 1, \<dots>\<close> until \<open>li == hi\<close>; with
  \<open>hi < lo\<close> the loop does not stop inside the table, which is \<open>None\<close>.
\<close>

definition worker_indices :: "nat \<times> nat \<Rightarrow> nat list option" where
  "worker_indices r = (if fst r \<le> snd r then Some [fst r..<snd r] else None)"

text \<open>
  The packed lower-triangular enumeration of \<^verbatim>\<open>ltri_ij\<close> (util.h): index 0 is the pair
  \<open>(1, 0)\<close>, then \<open>(2, 0)\<close>, \<open>(2, 1)\<close>, \<open>(3, 0)\<close> and so on; it is the order of
  \<open>lower_pairs\<close>, and \<open>n\<close> nodes have \<open>n * (n - 1) div 2\<close> pairs.
\<close>

definition covered :: "nat \<Rightarrow> nat \<Rightarrow> nat \<Rightarrow> bool" where
  "covered n n_workers k = list_ex (\<lambda>r. fst r \<le> k \<and> k < snd r) (simulate_step_ranges n n_workers)"

section \<open>AlignmentEngine (util.cpp, main\_frame.cpp)\<close>

text \<open>The codon table of \<^verbatim>\<open>translate\<close>, an \<^verbatim>\<open>unordered_map\<close> read with \<^verbatim>\<open>at\<close>.\<close>

definition translation :: "(string \<times> char) list" where
  "translation =
    [(''AAA'', CHR ''K''), (''AAC'', CHR ''N''), (''AAG'', CHR ''K''), (''AAT'', CHR ''N''),
     (''ACA'', CHR ''T''), (''ACC'', CHR ''T''), (''ACG'', CHR ''T''), (''ACT'', CHR ''T''),
     (''AGA'', CHR ''R''), (''AGC'', CHR ''S''), (''AGG'', CHR ''R''), (''AGT'', CHR ''S''),
     (''ATA'', CHR ''I''), (''ATC'', CHR ''I''), (''ATG'', CHR ''M''), (''ATT'', CHR ''I''),
     (''CAA'', CHR ''Q''), (''CAC'', CHR ''H''), (''CAG'', CHR ''Q''), (''CAT'', CHR ''H''),
     (''CCA'', CHR ''P''), (''CCC'', CHR ''P''), (''CCG'', CHR ''P''), (''CCT'', CHR ''P''),
     (''CGA'', CHR ''R''), (''CGC'', CHR ''R''), (''CGG'', CHR ''R''), (''CGT'', CHR ''R''),
     (''CTA'', CHR ''L''), (''CTC'', CHR ''L''), (''CTG'', CHR ''L''), (''CTT'', CHR ''L''),
     (''GAA'', CHR ''E''), (''GAC'', CHR ''D''), (''GAG'', CHR ''E''), (''GAT'', CHR ''D''),
     (''GCA'', CHR ''A''), (''GCC'', CHR ''A''), (''GCG'', CHR ''A''), (''GCT'', CHR ''A''),
     (''GGA'', CHR ''G''), (''GGC'', CHR ''G''), (''GGG'', CHR ''G''), (''GGT'', CHR ''G''),
     (''GTA'', CHR ''V''), (''GTC'', CHR ''V''), (''GTG'', CHR ''V''), (''GTT'', CHR ''V''),
     (''TAA'', CHR ''*''), (''TAC'', CHR ''Y''), (''TAG'', CHR ''*''), (''TAT'', CHR ''Y''),
     (''TCA'', CHR ''S''), (''TCC'', CHR ''S''), (''TCG'', CHR ''S''), (''TCT'', CHR ''S''),
     (''TGA'', CHR ''*''), (''TGC'', CHR ''C''), (''TGG'', CHR ''W''), (''TGT'', CHR ''C''),
     (''TTA'', CHR ''L''), (''TTC'', CHR ''F''), (''TTG'', CHR ''L''), (''TTT'', CHR ''F'')]"

text \<open>
  \<^verbatim>\<open>translate\<close>: non-gap characters are collected into \<open>cdn\<close>; each time three are
  collected the codon is looked up, and \<^verbatim>\<open>at\<close> throws \<^verbatim>\<open>std::out_of_range\<close> for a codon
  that is not in the table.
\<close>

fun translate_loop :: "string \<Rightarrow> string \<Rightarrow> string \<Rightarrow> error + string" where
  "translate_loop [] cdn aas = Inr aas"
| "translate_loop (nt # nts) cdn aas =
     (let cdn' = (if nt \<noteq> CHR ''-'' then cdn @ [nt] else cdn)
      in if length cdn' = 3
         then (case map_of translation cdn' of
                 None \<Rightarrow> Inl OutOfRange
               | Some aa \<Rightarrow> translate_loop nts [] (aas @ [aa]))
         else translate_loop nts cdn' aas)"

definition translate :: "string \<Rightarrow> error + string" where
  "translate nts = translate_loop nts [] []"

text \<open>
  \<^verbatim>\<open>find_codon_boundaries\<close>: offset and length of every gapped codon.  The loop state
  is the position \<open>i\<close>, the count \<open>cnt\<close> of non-gap characters seen in the current
  codon and the offset \<open>lo\<close> of its first one.
\<close>

fun codon_loop :: "string \<Rightarrow> nat \<Rightarrow> nat \<Rightarrow> nat \<Rightarrow> (nat \<times> nat) list \<Rightarrow> (nat \<times> nat) list" where
  "codon_loop [] i cnt lo result = result"
| "codon_loop (ch # seq) i cnt lo result =
     (if ch \<noteq> CHR ''-''
      then (if cnt + 1 = 1 then codon_loop seq (i + 1) 1 i result
            else if cnt + 1 = 3 then codon_loop seq (i + 1) 0 lo (result @ [(lo, i - lo + 1)])
            else codon_loop seq (i + 1) (cnt + 1) lo result)
      else codon_loop seq (i + 1) cnt lo result)"

definition find_codon_boundaries :: "string \<Rightarrow> (nat \<times> nat) list" where
  "find_codon_boundaries seq = codon_loop seq 0 0 0 []"

text \<open>\<^verbatim>\<open>intersect\<close>: intervals are (lower bound, length).\<close>

definition intersect :: "nat \<times> nat \<Rightarrow> nat \<times> nat \<Rightarrow> (nat \<times> nat) option" where
  "intersect ivala ivalb =
     (let lo = max (fst ivala) (fst ivalb);
          hi = min (fst ivala + snd ivala) (fst ivalb + snd ivalb)
      in if lo < hi then Some (lo, hi - lo) else None)"

text \<open>
  The \<^verbatim>\<open>float\<close> scores of the alignment are minus infinity or sums of whole numbers
  and multiples of the gap penalty: a value with minus infinity adjoined.
\<close>

datatype fscore = NegInf | Val rat

fun fplus :: "fscore \<Rightarrow> fscore \<Rightarrow> fscore" where
  "fplus (Val a) (Val b) = Val (a + b)"
| "fplus _ _ = NegInf"

fun fless :: "fscore \<Rightarrow> fscore \<Rightarrow> bool" where
  "fless (Val a) (Val b) = (a < b)"
| "fless NegInf (Val b) = True"
| "fless _ NegInf = False"

record Trace =
  mv :: char
  score :: fscore

text \<open>
  \<^verbatim>\<open>std::max_element\<close> with the comparison \<open>a.score < b.score\<close>: the first of the
  largest elements.
\<close>

fun max_element :: "Trace \<Rightarrow> Trace list \<Rightarrow> Trace" where
  "max_element largest [] = largest"
| "max_element largest (t # ts) =
     (if fless (score largest) (score t) then max_element t ts else max_element largest ts)"

text \<open>One entry of the constrained match matrix.\<close>

definition match_entry :: "string \<Rightarrow> string \<Rightarrow> nat \<times> nat \<Rightarrow> nat \<times> nat \<Rightarrow> fscore" where
  "match_entry seqa seqb cdna cdnb =
     (case intersect cdna cdnb of
        None \<Rightarrow> NegInf
      | Some (lo, len) \<Rightarrow>
          Val (of_nat (length (filter (\<lambda>k. seqa ! k = seqb ! k \<and> seqa ! k \<noteq> CHR ''-'')
                                      [lo..<lo + len]))))"

definition match_matrix :: "string \<Rightarrow> string \<Rightarrow> (nat \<times> nat) list \<Rightarrow> (nat \<times> nat) list \<Rightarrow> fscore Matrix" where
  "match_matrix seqa seqb cdnsa cdnsb =
     \<lparr>rows = length cdnsa, cols = length cdnsb,
      buf = concat (map (\<lambda>i. map (\<lambda>j. match_entry seqa seqb (cdnsa ! i) (cdnsb ! j))
                                [0..<length cdnsb]) [0..<length cdnsa])\<rparr>"

text \<open>
  The trace matrix before the fill: every cell is \<open>Trace{0, 0.0f}\<close>, column 0 below the
  corner moves \<open>b\<close>, row 0 right of the corner moves \<open>a\<close>.
\<close>

definition trace_init :: "nat \<Rightarrow> nat \<Rightarrow> Trace Matrix" where
  "trace_init na nb =
     \<lparr>rows = na + 1, cols = nb + 1,
      buf = concat (map (\<lambda>i. map (\<lambda>j. \<lparr>mv = (if j = 0 \<and> 1 \<le> i then CHR ''b''
                                                  else if i = 0 \<and> 1 \<le> j then CHR ''a''
                                                  else CHR 0x00),
                                            score = Val 0\<rparr>)
                                [0..<nb + 1]) [0..<na + 1])\<rparr>"

text \<open>
  The fill of cell \<open>(i, j)\<close>: \<open>gapp * static_cast<bool>(\<dots>)\<close> is the penalty or 0.
\<close>

definition fill_cell :: "fscore Matrix \<Rightarrow> rat \<Rightarrow> nat \<Rightarrow> nat \<Rightarrow> Trace Matrix \<Rightarrow> nat \<times> nat \<Rightarrow> Trace Matrix" where
  "fill_cell match gapp na nb trace ij =
     (let i = fst ij; j = snd ij;
          m = \<lparr>mv = CHR ''m'',
               score = fplus (score (mat_at trace (i - 1, j - 1))) (mat_at match (i - 1, j - 1))\<rparr>;
          a = \<lparr>mv = CHR ''a'',
               score = fplus (score (mat_at trace (i, j - 1))) (Val (- (gapp * (if nb \<noteq> j then 1 else 0))))\<rparr>;
          b = \<lparr>mv = CHR ''b'',
               score = fplus (score (mat_at trace (i - 1, j))) (Val (- (gapp * (if na \<noteq> i then 1 else 0))))\<rparr>
      in mat_put trace (i, j) (max_element m [a, b]))"

definition fill_trace :: "fscore Matrix \<Rightarrow> rat \<Rightarrow> nat \<Rightarrow> nat \<Rightarrow> Trace Matrix" where
  "fill_trace match gapp na nb =
     fold (\<lambda>ij trace. fill_cell match gapp na nb trace ij)
       (concat (map (\<lambda>i. map (\<lambda>j. (i, j)) [1..<nb + 1]) [1..<na + 1]))
       (trace_init na nb)"

text \<open>
  The residue of one codon: \<open>translate(std::string_view(&seq[lo], len))[0]\<close>.  The
  index 0 of an empty \<^verbatim>\<open>std::string\<close> is its terminating zero.
\<close>

definition residue :: "string \<Rightarrow> nat \<times> nat \<Rightarrow> error + char" where
  "residue seq cdn =
     (case translate (take (snd cdn) (drop (fst cdn) seq)) of
        Inl e \<Rightarrow> Inl e
      | Inr [] \<Rightarrow> Inr (CHR 0x00)
      | Inr (aa # _) \<Rightarrow> Inr aa)"

text \<open>
  The walk back from the last cell.  Row 0 only moves \<open>a\<close> and column 0 only moves
  \<open>b\<close>, so the codon reads \<open>cdnsa[i - 1]\<close> and \<open>cdnsb[j - 1]\<close> stay inside; a read
  with index 0 would be outside, which the model makes explicit.
\<close>

function walk_back :: "Trace Matrix \<Rightarrow> string \<Rightarrow> string \<Rightarrow> (nat \<times> nat) list \<Rightarrow> (nat \<times> nat) list
    \<Rightarrow> nat \<Rightarrow> nat \<Rightarrow> string \<Rightarrow> string \<Rightarrow> error + string \<times> string" where
  "walk_back trace seqa seqb cdnsa cdnsb i j topx btmx =
     (let t = mat_at trace (i, j)
      in if mv t = CHR ''m'' then
           (if i = 0 \<or> j = 0 then Inl ReadOutside
            else (case residue seqa (cdnsa ! (i - 1)) of
                    Inl e \<Rightarrow> Inl e
                  | Inr ra \<Rightarrow>
                     (case residue seqb (cdnsb ! (j - 1)) of
                        Inl e \<Rightarrow> Inl e
                      | Inr rb \<Rightarrow> walk_back trace seqa seqb cdnsa cdnsb (i - 1) (j - 1)
                                    (topx @ [ra]) (btmx @ [rb]))))
         else if mv t = CHR ''a'' then
           (if j = 0 then Inl ReadOutside
            else (case residue seqb (cdnsb ! (j - 1)) of
                    Inl e \<Rightarrow> Inl e
                  | Inr rb \<Rightarrow> walk_back trace seqa seqb cdnsa cdnsb i (j - 1)
                                (topx @ [CHR ''-'']) (btmx @ [rb])))
         else if mv t = CHR ''b'' then
           (if i = 0 then Inl ReadOutside
            else (case residue seqa (cdnsa ! (i - 1)) of
                    Inl e \<Rightarrow> Inl e
                  | Inr ra \<Rightarrow> walk_back trace seqa seqb cdnsa cdnsb (i - 1) j
                                (topx @ [ra]) (btmx @ [CHR ''-''])))
         else Inr (topx, btmx))"
  by pat_completeness auto
termination
  by (relation "measure (\<lambda>(trace, seqa, seqb, cdnsa, cdnsb, i, j, topx, btmx). i + j)") auto

definition contrained_nw_align :: "string \<Rightarrow> string \<Rightarrow> rat \<Rightarrow> error + string \<times> string" where
  "contrained_nw_align seqa seqb gapp =
     (let cdnsa = find_codon_boundaries seqa;
          cdnsb = find_codon_boundaries seqb;
          match = match_matrix seqa seqb cdnsa cdnsb;
          trace = fill_trace match gapp (length cdnsa) (length cdnsb)
      in case walk_back trace seqa seqb cdnsa cdnsb (length cdnsa) (length cdnsb) [] [] of
           Inl e \<Rightarrow> Inl e
         | Inr (topx, btmx) \<Rightarrow> Inr (rev topx, rev btmx))"

text \<open>
  \<^verbatim>\<open>tally_alignment_mutations\<close>.  A \<^verbatim>\<open>Mut\<close> is an event: type \<open>+\<close>, \<open>-\<close> or 0
  (substitution), its position in the top sequence and the residues involved.
\<close>

record Mut =
  mtype :: char
  mpos :: nat
  mtop :: string
  mbtm :: string

text \<open>The first loop: \<open>i\<close> runs over the columns, \<open>j\<close> counts the non-gap top residues.\<close>

fun diff_loop :: "string \<Rightarrow> string \<Rightarrow> nat \<Rightarrow> Mut list \<Rightarrow> (error + Mut list)" where
  "diff_loop [] btmx j muts = Inr muts"
| "diff_loop (t # topx) [] j muts = Inl ReadOutside"
| "diff_loop (t # topx) (b # btmx) j muts =
     diff_loop topx btmx (j + (if t \<noteq> CHR ''-'' then 1 else 0))
       (if t = CHR ''-'' \<and> b \<noteq> CHR ''-''
          then muts @ [\<lparr>mtype = CHR ''+'', mpos = j, mtop = [], mbtm = [b]\<rparr>]
        else if t \<noteq> CHR ''-'' \<and> b = CHR ''-''
          then muts @ [\<lparr>mtype = CHR ''-'', mpos = j, mtop = [t], mbtm = []\<rparr>]
        else if t \<noteq> b
          then muts @ [\<lparr>mtype = CHR 0x00, mpos = j, mtop = [t], mbtm = [b]\<rparr>]
        else muts)"

text \<open>
  The second loop works from the back of \<open>muts\<close>; the first argument is \<open>muts\<close>
  reversed, its head the last element.
\<close>

fun consolidate_loop :: "Mut list \<Rightarrow> Mut list \<Rightarrow> Mut list" where
  "consolidate_loop [] consolidated = consolidated"
| "consolidate_loop [b] consolidated = consolidated @ [b]"
| "consolidate_loop (b # a # muts) consolidated =
     (if mtype a \<noteq> CHR 0x00 \<and> mtype a = mtype b \<and> mpos a + 1 = mpos b
      then consolidate_loop (a\<lparr>mtop := mtop a @ mtop b, mbtm := mbtm a @ mbtm b\<rparr> # muts) consolidated
      else consolidate_loop (a # muts) (consolidated @ [b]))"

text \<open>\<^verbatim>\<open>std::to_string\<close> of an unsigned number.\<close>

fun to_string :: "nat \<Rightarrow> string" where
  "to_string n =
     (if n < 10 then [char_of (48 + n)]
      else to_string (n div 10) @ [char_of (48 + n mod 10)])"

definition render :: "Mut \<Rightarrow> string" where
  "render m =
     (if mtype m = CHR ''+'' then CHR ''+'' # to_string (mpos m + 1) @ mbtm m
      else if mtype m = CHR ''-'' then CHR ''-'' # to_string (mpos m + 1) @ mtop m
      else mtop m @ to_string (mpos m + 1) @ mbtm m) @ [CHR '','']"

definition tally_alignment_mutations :: "string \<Rightarrow> string \<Rightarrow> error + string" where
  "tally_alignment_mutations topx btmx =
     (case diff_loop topx btmx 0 [] of
        Inl e \<Rightarrow> Inl e
      | Inr muts \<Rightarrow>
          (let consolidated = rev (consolidate_loop (rev muts) []);
               output = concat (map render consolidated)
           in Inr (if output \<noteq> [] then butlast output else output)))"

declare walk_back.simps [simp del]
declare to_string.simps [simp del]

section \<open>SimulationEngine (network.cpp)\<close>

text \<open>
  The simulation state of \<^verbatim>\<open>Network\<close>: \<open>node_id\<close> are the ids of \<^verbatim>\<open>ptrs_\<close> in order,
  \<open>node_pin\<close> is \<^verbatim>\<open>pins_\<close> (0 for pinned nodes, otherwise 1), \<open>node_x node_y node_m spring_l spring_s node_vx node_vy\<close>
  are \<^verbatim>\<open>x_ y_ m_ l_ s_ vx_ vy_\<close>, and the parameters are the values of the constants
  \<open>B C E G K V T\<close> and \<^verbatim>\<open>EPSILON_\<close>.  The \<^verbatim>\<open>float\<close>s are real numbers here:
  rounding is not modelled, the comparisons and branches are the source's.
\<close>

record Network =
  node_id :: "nat list"
  node_pin :: "int list"
  node_x :: "real list"
  node_y :: "real list"
  node_m :: "real list"
  spring_l :: "real list"
  spring_s :: "real list"
  node_vx :: "real list"
  node_vy :: "real list"
  n_workers :: nat
  parB :: real
  parC :: real
  parE :: real
  parG :: real
  parK :: real
  parVmax :: real
  pardT :: real
  EPSILON :: real
  iteration :: nat

text \<open>
  \<^verbatim>\<open>ltri_ij\<close> (util.cpp): row and column of linear index \<open>k\<close> in the packed lower
  triangle.  The source computes it with a \<^verbatim>\<open>double\<close> square root, exact for reasonably
  sized \<open>k\<close> as its comment says; the model is the exact function.
\<close>

function ltri_row :: "nat \<Rightarrow> nat \<Rightarrow> nat \<times> nat" where
  "ltri_row i k = (if k < Suc i then (Suc i, k) else ltri_row (Suc i) (k - Suc i))"
  by pat_completeness auto
termination
  by (relation "measure (\<lambda>(i, k). k)") auto

definition ltri_ij :: "nat \<Rightarrow> nat \<times> nat" where
  "ltri_ij k = ltri_row 0 k"

declare ltri_row.simps [simp del]

text \<open>
  One pass of the loop of \<^verbatim>\<open>simulate_step_worker\<close> for linear index \<open>li\<close> at the pair
  \<open>(i, j)\<close>; a read outside a vector is \<open>None\<close>.
\<close>

definition pair_force :: "Network \<Rightarrow> nat \<Rightarrow> nat \<Rightarrow> nat \<Rightarrow> real \<times> real" where
  "pair_force net li i j =
     (let dx = node_x net ! j - node_x net ! i;
          dy = node_y net ! j - node_y net ! i;
          r_sq0 = dx * dx + dy * dy;
          r0 = sqrt r_sq0;
          r_sq = max r_sq0 (EPSILON net);
          r = max r0 (EPSILON net);
          fg = parG net * node_m net ! i * node_m net ! j / r_sq;
          k = parK net * spring_s net ! li;
          l = parE net * spring_l net ! li;
          fs = (r - l) * k
      in ((fg + fs) * dx / r, (fg + fs) * dy / r))"

fun worker_loop :: "Network \<Rightarrow> nat list \<Rightarrow> nat \<Rightarrow> nat \<Rightarrow> real list \<Rightarrow> real list
    \<Rightarrow> (real list \<times> real list) option" where
  "worker_loop net [] i j fx_out fy_out = Some (fx_out, fy_out)"
| "worker_loop net (li # lis) i j fx_out fy_out =
     (if i < length (node_x net) \<and> j < length (node_x net) \<and> li < length (spring_s net)
      then (let f = pair_force net li i j;
                fx1 = fx_out[i := fx_out ! i + fst f];
                fy1 = fy_out[i := fy_out ! i + snd f];
                fx2 = fx1[j := fx1 ! j - fst f];
                fy2 = fy1[j := fy1 ! j - snd f]
            in if j + 1 = i then worker_loop net lis (i + 1) 0 fx2 fy2
               else worker_loop net lis i (j + 1) fx2 fy2)
      else None)"

definition simulate_step_worker :: "Network \<Rightarrow> nat \<times> nat \<Rightarrow> (real list \<times> real list) option" where
  "simulate_step_worker net r =
     (case worker_indices r of
        None \<Rightarrow> None
      | Some lis \<Rightarrow>
          worker_loop net lis (fst (ltri_ij (fst r))) (snd (ltri_ij (fst r)))
            (replicate (length (node_id net)) 0) (replicate (length (node_id net)) 0))"

text \<open>
  The speed clamp of one node: \<open>if (s <= EPSILON_) continue;\<close> leaves the velocity as
  it is, otherwise both components are scaled by \<open>s_max / s * pins_[i]\<close>.
\<close>

definition clamp_velocity :: "Network \<Rightarrow> real \<Rightarrow> real \<Rightarrow> int \<Rightarrow> real \<times> real" where
  "clamp_velocity net vx vy pin =
     (let s = sqrt (vx * vx + vy * vy);
          s_max = min (parVmax net) s
      in if s \<le> EPSILON net then (vx, vy)
         else (vx * (s_max / s * of_int pin), vy * (s_max / s * of_int pin)))"

text \<open>
  \<^verbatim>\<open>Network::simulate_step\<close>.  All state vectors have one slot per node
  (\<^verbatim>\<open>init_simulation\<close>); the workers' accumulators are summed into the first one.
\<close>

definition simulate_step :: "Network \<Rightarrow> Network option" where
  "simulate_step net =
     (let n = length (node_id net)
      in if n_workers net = 0 then None
         else (case those (map (simulate_step_worker net) (simulate_step_ranges n (n_workers net))) of
                 None \<Rightarrow> None
               | Some fs \<Rightarrow>
                  (let fx = foldl (\<lambda>acc f. map2 (+) acc (fst f)) (fst (hd fs)) (tl fs);
                       fy = foldl (\<lambda>acc f. map2 (+) acc (snd f)) (snd (hd fs)) (tl fs);
                       d_vx = map (\<lambda>i. (fx ! i - parB net * node_vx net ! i - parC net * node_x net ! i) / node_m net ! i) [0..<n];
                       d_vy = map (\<lambda>i. (fy ! i - parB net * node_vy net ! i - parC net * node_y net ! i) / node_m net ! i) [0..<n];
                       vx1 = map (\<lambda>i. node_vx net ! i + d_vx ! i) [0..<n];
                       vy1 = map (\<lambda>i. node_vy net ! i + d_vy ! i) [0..<n];
                       v2 = map (\<lambda>i. clamp_velocity net (vx1 ! i) (vy1 ! i) (node_pin net ! i)) [0..<n];
                       vx2 = map fst v2;
                       vy2 = map snd v2
                   in Some (net\<lparr>node_vx := vx2, node_vy := vy2,
                          node_x := map (\<lambda>i. node_x net ! i + pardT net * vx2 ! i) [0..<n],
                          node_y := map (\<lambda>i. node_y net ! i + pardT net * vy2 ! i) [0..<n],
                          iteration := iteration net + 1\<rparr>))))"

text \<open>\<^verbatim>\<open>pin_node\<close> and \<^verbatim>\<open>unpin_node\<close>: the first slot whose node has the id.\<close>

definition find_slot :: "Network \<Rightarrow> nat \<Rightarrow> nat option" where
  "find_slot net ident = (case filter (\<lambda>i. node_id net ! i = ident) [0..<length (node_id net)] of
                        [] \<Rightarrow> None | i # _ \<Rightarrow> Some i)"

definition pin_node :: "Network \<Rightarrow> nat \<Rightarrow> Network" where
  "pin_node net ident =
     (case find_slot net ident of
        None \<Rightarrow> net
      | Some i \<Rightarrow> net\<lparr>node_vx := (node_vx net)[i := 0], node_vy := (node_vy net)[i := 0], node_pin := (node_pin net)[i := 0]\<rparr>)"

definition unpin_node :: "Network \<Rightarrow> nat \<Rightarrow> Network" where
  "unpin_node net ident =
     (case find_slot net ident of
        None \<Rightarrow> net
      | Some i \<Rightarrow> net\<lparr>node_pin := (node_pin net)[i := 1]\<rparr>)"

text \<open>
  A network of two nodes on one worker: node 0 at \<open>(0.1, 0)\<close> with mass 2, its child
  node 1 at the origin with mass 1, everything at rest; the sliders of \<open>G\<close> and \<open>K\<close>
  at their minimum 0, the other constants at their defaults.
\<close>

definition two_nodes :: Network where
  "two_nodes =
     \<lparr>node_id = [0, 1], node_pin = [1, 1], node_x = [1 / 10, 0], node_y = [0, 0], node_m = [2, 1],
      spring_l = [3], spring_s = [1], node_vx = [0, 0], node_vy = [0, 0], n_workers = 1,
      parB = 1, parC = 1 / 1000, parE = 1, parG = 0, parK = 0, parVmax = 2 / 10, pardT = 1,
      EPSILON = 1 / 10000, iteration = 0\<rparr>"

section \<open>Randomized MST and consensus (tree.cpp)\<close>

text \<open>The local \<^verbatim>\<open>struct Join\<close> of \<^verbatim>\<open>build_mst\<close>: parent, child and key.\<close>

record Join =
  join_p :: nat
  join_c :: nat
  join_d :: u32

text \<open>\<^verbatim>\<open>std::numeric_limits<uint32_t>::max()\<close>, named \<open>MAX_D\<close> and \<open>PCT_MAX\<close> in the source.\<close>

definition MAX_D :: u32 where
  "MAX_D = 0xFFFFFFFF"

text \<open>
  The key of attaching child \<open>c\<close> to parent \<open>p\<close>: the table entry when both indices are
  inside the table, otherwise the two Hamming distances packed on the spot.  Reads
  outside \<open>sequences\<close>, and Hamming distances that read past a string, are \<open>None\<close>.
\<close>

definition join_key :: "string list \<Rightarrow> u32 Matrix \<Rightarrow> nat \<Rightarrow> nat \<Rightarrow> u32 option" where
  "join_key sequences dism c p =
     (if c < rows dism \<and> p < cols dism then Some (mat_at dism (c, p))
      else if c < length sequences \<and> p < length sequences
      then (case hamming_distance (sequences ! c) (sequences ! p) of
              None \<Rightarrow> None
            | Some d1 \<Rightarrow>
               (case hamming_distance (sequences ! p) (sequences ! 0) of
                  None \<Rightarrow> None
                | Some d2 \<Rightarrow> Some (push_bit 16 d1 OR (d2 AND 0xFFFF))))
      else None)"

text \<open>
  The inner loop of \<^verbatim>\<open>build_mst\<close> over the indices \<open>i\<close>, relaxing against the child
  \<open>p\<close> of the join added last; the state is the vector and the running minimum
  \<open>(min_i, min_d)\<close>.
\<close>

fun relax :: "string list \<Rightarrow> u32 Matrix \<Rightarrow> nat \<Rightarrow> nat list \<Rightarrow> Join list \<times> nat \<times> u32
    \<Rightarrow> (Join list \<times> nat \<times> u32) option" where
  "relax sequences dism p [] st = Some st"
| "relax sequences dism p (i # is) (joins, min_i, min_d) =
     (case join_key sequences dism (join_c (joins ! i)) p of
        None \<Rightarrow> None
      | Some d \<Rightarrow>
         (let joins1 = (if d < join_d (joins ! i)
                        then joins[i := (joins ! i)\<lparr>join_d := d, join_p := p\<rparr>]
                        else joins)
          in if join_d (joins1 ! i) < min_d
             then relax sequences dism p is (joins1, i, join_d (joins1 ! i))
             else relax sequences dism p is (joins1, min_i, min_d)))"

text \<open>The outer loop over the pivots, ending each pass with the swap.\<close>

fun prim_loop :: "string list \<Rightarrow> u32 Matrix \<Rightarrow> nat list \<Rightarrow> Join list \<Rightarrow> Join list option" where
  "prim_loop sequences dism [] joins = Some joins"
| "prim_loop sequences dism (pivot # pivots) joins =
     (case relax sequences dism (join_c (joins ! (pivot - 1))) [pivot..<length joins]
             (joins, pivot, join_d (joins ! pivot)) of
        None \<Rightarrow> None
      | Some (joins1, min_i, min_d) \<Rightarrow>
          prim_loop sequences dism pivots (joins1[pivot := joins1 ! min_i, min_i := joins1 ! pivot]))"

text \<open>
  \<^verbatim>\<open>build_mst\<close>.  The two sources of randomness are arguments: \<open>shuffled\<close> is \<open>None\<close>
  when \<open>shuffle_sequences\<close> is false and otherwise holds the children of
  \<open>joins[1 \<dots>]\<close> in the order \<^verbatim>\<open>std::shuffle\<close> left them, a permutation of
  \<open>1 \<dots> dim - 1\<close>; \<open>inferred\<close> is \<open>None\<close> when \<open>do_infer_ancestors\<close> is false and
  otherwise holds what \<^verbatim>\<open>infer_ancestors\<close> returned (it draws random bits).  The result
  is the parent vector \<open>tree\<close>.
\<close>

definition build_mst :: "string list \<Rightarrow> u32 Matrix \<Rightarrow> nat list option \<Rightarrow> string list option
    \<Rightarrow> nat list option" where
  "build_mst input dism shuffled inferred =
     (let sequences = input @ (case inferred of None \<Rightarrow> [] | Some anc \<Rightarrow> anc);
          dim = max (length sequences) (rows dism);
          joins = map (\<lambda>i. \<lparr>join_p = 0, join_c = i, join_d = MAX_D\<rparr>)
                    (case shuffled of None \<Rightarrow> [0..<dim] | Some order \<Rightarrow> 0 # order)
      in case prim_loop sequences dism [1..<length joins] joins of
           None \<Rightarrow> None
         | Some joins' \<Rightarrow>
             Some (fold (\<lambda>j tree. tree[join_c j := join_p j]) joins' (replicate (length joins') 0)))"

text \<open>
  The re-parenting loop \<open>while (input.size() <= p) p = tree[p];\<close>.  It need not stop
  for an arbitrary vector, so it is a partial function.
\<close>

partial_function (option) real_ancestor :: "nat list \<Rightarrow> nat \<Rightarrow> nat \<Rightarrow> nat option" where
  "real_ancestor tree n p =
     (if n \<le> p then (if p < length tree then real_ancestor tree n (tree ! p) else None)
      else Some p)"

declare real_ancestor.simps [code]

text \<open>
  The tally of one sample into \<open>pct\<close>: for every child \<open>c\<close> from 1 the entry of
  \<open>(c, p)\<close>, \<open>p\<close> its nearest real ancestor, is decremented.
\<close>

fun tally_sample :: "nat list \<Rightarrow> nat \<Rightarrow> nat list \<Rightarrow> u32 Matrix \<Rightarrow> u32 Matrix option" where
  "tally_sample tree n [] pct = Some pct"
| "tally_sample tree n (c # cs) pct =
     (if c < length tree
      then (case real_ancestor tree n (tree ! c) of
              None \<Rightarrow> None
            | Some p \<Rightarrow> tally_sample tree n cs (mat_put pct (c, p) (mat_at pct (c, p) - 1)))
      else None)"

text \<open>
  The sampling loop.  Each sample comes with its two random draws, the shuffle and the
  inferred sequences; the batches of futures are run one sample after the other.
\<close>

fun run_samples :: "string list \<Rightarrow> u32 Matrix \<Rightarrow> bool \<Rightarrow> (nat list \<times> string list) list
    \<Rightarrow> u32 Matrix \<Rightarrow> u32 Matrix option" where
  "run_samples input dism do_infer_ancestors [] pct = Some pct"
| "run_samples input dism do_infer_ancestors (s # samples) pct =
     (case build_mst input dism (Some (fst s)) (if do_infer_ancestors then Some (snd s) else None) of
        None \<Rightarrow> None
      | Some tree \<Rightarrow>
         (case tally_sample tree (length input) [1..<length input] pct of
            None \<Rightarrow> None
          | Some pct' \<Rightarrow> run_samples input dism do_infer_ancestors samples pct'))"

text \<open>
  One edge of the result.  The weight is \<open>(PCT_MAX - (pct[{c, p}] & PCT_MAX))\<close> divided
  by the number of samples; with no samples the source divides 0 by 0.
\<close>

definition consensus_edge :: "u32 Matrix \<Rightarrow> u32 Matrix \<Rightarrow> nat \<Rightarrow> nat list \<Rightarrow> nat \<Rightarrow> Edge" where
  "consensus_edge dism pct n_samples tree c =
     (let p = tree ! c
      in \<lparr>parent = p, child = c,
          distance = drop_bit 16 (mat_at dism (c, p)),
          weight = (if n_samples = 0 then None
                    else Some (of_nat (unat (MAX_D - (mat_at pct (c, p) AND MAX_D))) / of_nat n_samples))\<rparr>)"

text \<open>
  \<^verbatim>\<open>build_consensus_mst\<close>.  \<open>samples\<close> lists the random draws of the \<open>n_samples\<close>
  samples.  The unshuffled tree built first only feeds a log line; the log lines are
  left out.
\<close>

definition build_consensus_mst :: "string list \<Rightarrow> (nat list \<times> string list) list \<Rightarrow> bool
    \<Rightarrow> Edge list option" where
  "build_consensus_mst input samples do_infer_ancestors =
     (case make_distance_matrix input of
        None \<Rightarrow> None
      | Some dism \<Rightarrow>
         (case build_mst input dism None None of
            None \<Rightarrow> None
          | Some max_p_tree \<Rightarrow>
             (case run_samples input dism do_infer_ancestors samples
                     (Matrix_init (length input) (length input) MAX_D) of
                None \<Rightarrow> None
              | Some pct \<Rightarrow>
                 (case build_mst [] pct None None of
                    None \<Rightarrow> None
                  | Some tree \<Rightarrow>
                      Some (map (consensus_edge dism pct (length samples) tree) [1..<length input])))))"

text \<open>
  What one relaxation does to one join: the key and the parent are replaced when the new
  key is strictly smaller.
\<close>

definition relax_join :: "u32 \<Rightarrow> nat \<Rightarrow> Join \<Rightarrow> Join" where
  "relax_join d p j = (if d < join_d j then j\<lparr>join_d := d, join_p := p\<rparr> else j)"

text \<open>
  One pass of the outer loop in closed form: \<open>relaxed\<close> is the vector after the inner
  loop of pivot \<open>pivot\<close>, \<open>swap_at\<close> the closing \<^verbatim>\<open>std::swap\<close>.
\<close>

definition key_of :: "string list \<Rightarrow> u32 Matrix \<Rightarrow> nat \<Rightarrow> nat \<Rightarrow> u32" where
  "key_of sequences dism c p = the (join_key sequences dism c p)"

definition relaxed :: "string list \<Rightarrow> u32 Matrix \<Rightarrow> nat \<Rightarrow> Join list \<Rightarrow> Join list" where
  "relaxed sequences dism pivot joins =
     map (\<lambda>i. if pivot \<le> i
              then relax_join (key_of sequences dism (join_c (joins ! i)) (join_c (joins ! (pivot - 1))))
                     (join_c (joins ! (pivot - 1))) (joins ! i)
              else joins ! i) [0..<length joins]"

definition swap_at :: "nat \<Rightarrow> nat \<Rightarrow> 'a list \<Rightarrow> 'a list" where
  "swap_at i j xs = xs[i := xs ! j, j := xs ! i]"

text \<open>
  The shape every run of the outer loop keeps: the children of the joins are the
  vertices \<open>0 \<dots> len - 1\<close>, each once, the root stays in front, and the parent of
  every join sits at an earlier position, among those already attached.
\<close>

definition attach_inv :: "nat \<Rightarrow> nat \<Rightarrow> Join list \<Rightarrow> bool" where
  "attach_inv len pivot J =
     (mset (map join_c J) = mset [0..<len] \<and> join_c (J ! 0) = 0 \<and> join_p (J ! 0) = 0
      \<and> (\<forall>i. 1 \<le> i \<and> i < len \<longrightarrow> (\<exists>k. k < i \<and> k < pivot \<and> join_c (J ! k) = join_p (J ! i))))"

text \<open>
  A parent vector over \<open>len\<close> vertices is rooted at 0 when some ranking of the vertices
  puts every parent before its child.
\<close>

definition rooted :: "nat list \<Rightarrow> nat \<Rightarrow> (nat \<Rightarrow> nat) \<Rightarrow> bool" where
  "rooted tree len rank =
     (length tree = len \<and> tree ! 0 = 0
      \<and> (\<forall>c. 1 \<le> c \<and> c < len \<longrightarrow> tree ! c < len \<and> rank (tree ! c) < rank c))"

text \<open>The pieces of \<^verbatim>\<open>build_mst\<close> by name: the start vector and the closing loop.\<close>

definition vertex_order :: "nat \<Rightarrow> nat list option \<Rightarrow> nat list" where
  "vertex_order dm shuffled = (case shuffled of None \<Rightarrow> [0..<dm] | Some order \<Rightarrow> 0 # order)"

definition init_joins :: "nat list \<Rightarrow> Join list" where
  "init_joins order = map (\<lambda>i. \<lparr>join_p = 0, join_c = i, join_d = MAX_D\<rparr>) order"

definition tree_of :: "Join list \<Rightarrow> nat list" where
  "tree_of J = fold (\<lambda>j tree. tree[join_c j := join_p j]) J (replicate (length J) 0)"

text \<open>A shuffle is a permutation of the vertices after the root.\<close>

definition valid_shuffle :: "nat \<Rightarrow> nat list option \<Rightarrow> bool" where
  "valid_shuffle dm shuffled =
     (case shuffled of None \<Rightarrow> True | Some order \<Rightarrow> mset order = mset [1..<dm])"

text \<open>
  The samples of a run, named: the parent vector a sample's draws produce, the parent it
  assigns to child \<open>c\<close> after re-parenting onto the nearest real ancestor, and the number
  of samples that assign parent \<open>p\<close> to child \<open>c\<close>.
\<close>

definition sample_tree :: "string list \<Rightarrow> u32 Matrix \<Rightarrow> bool \<Rightarrow> nat list \<times> string list \<Rightarrow> nat list" where
  "sample_tree input dism do_infer_ancestors s =
     the (build_mst input dism (Some (fst s)) (if do_infer_ancestors then Some (snd s) else None))"

definition sample_parent :: "string list \<Rightarrow> u32 Matrix \<Rightarrow> bool \<Rightarrow> nat list \<times> string list \<Rightarrow> nat \<Rightarrow> nat" where
  "sample_parent input dism do_infer_ancestors s c =
     the (real_ancestor (sample_tree input dism do_infer_ancestors s) (length input)
            (sample_tree input dism do_infer_ancestors s ! c))"

definition occurrences :: "string list \<Rightarrow> u32 Matrix \<Rightarrow> bool \<Rightarrow> (nat list \<times> string list) list
    \<Rightarrow> nat \<Rightarrow> nat \<Rightarrow> nat" where
  "occurrences input dism do_infer_ancestors samples c p =
     length (filter (\<lambda>s. sample_parent input dism do_infer_ancestors s c = p) samples)"

text \<open>
  The draws of a sample are well formed when the inferred sequences have the length of
  the input sequences and the shuffle is a permutation of the vertices after the root.
\<close>

definition valid_sample :: "string list \<Rightarrow> bool \<Rightarrow> nat \<Rightarrow> nat list \<times> string list \<Rightarrow> bool" where
  "valid_sample input do_infer_ancestors L s =
     (list_all (\<lambda>a. \<not> do_infer_ancestors \<or> length a = L) (snd s)
      \<and> mset (fst s) = mset [1..<length input + (if do_infer_ancestors then length (snd s) else 0)])"

text \<open>
  The shape of the vector while the final tree is built over the inverted counts of one
  sample with parent function \<open>par\<close>: the attached joins carry the sample's parent, and
  a waiting join has been relaxed exactly when its sample parent is attached.
\<close>

definition cons_inv :: "(nat \<Rightarrow> nat) \<Rightarrow> nat \<Rightarrow> nat \<Rightarrow> Join list \<Rightarrow> bool" where
  "cons_inv par len pivot J =
     (mset (map join_c J) = mset [0..<len] \<and> join_c (J ! 0) = 0 \<and> join_p (J ! 0) = 0
      \<and> (\<forall>i. 1 \<le> i \<and> i < pivot \<and> i < len \<longrightarrow> join_p (J ! i) = par (join_c (J ! i)))
      \<and> (\<forall>i. pivot \<le> i \<and> i < len \<longrightarrow>
            (if \<exists>k. Suc k < pivot \<and> join_c (J ! k) = par (join_c (J ! i))
             then join_d (J ! i) = MAX_D - 1 \<and> join_p (J ! i) = par (join_c (J ! i))
             else join_d (J ! i) = MAX_D)))"

text \<open>
  The shape of the vector when the root is the best parent of every vertex: all parents
  are the root, and from the second pass on every waiting key is the root's.
\<close>

definition star_inv :: "u32 Matrix \<Rightarrow> nat \<Rightarrow> nat \<Rightarrow> Join list \<Rightarrow> bool" where
  "star_inv dism len pivot J =
     (mset (map join_c J) = mset [0..<len] \<and> join_c (J ! 0) = 0 \<and> join_p (J ! 0) = 0
      \<and> (\<forall>i. 1 \<le> i \<and> i < len \<longrightarrow> join_p (J ! i) = 0)
      \<and> (\<forall>i. pivot \<le> i \<and> i < len \<longrightarrow>
            join_d (J ! i) = (if pivot = 1 then MAX_D else mat_at dism (join_c (J ! i), 0))))"

section \<open>AncestralInference: the Fitch upward pass (tree.cpp)\<close>

text \<open>
  \<^verbatim>\<open>struct BNode\<close>.  The nodes live in one vector (\<open>nodes\<close> in \<^verbatim>\<open>infer_ancestors\<close>);
  a pointer to a node is its position there, the null pointer is \<open>None\<close>.
\<close>

record BNode =
  bn_id :: nat
  bn_p :: "nat option"
  bn_l :: "nat option"
  bn_r :: "nat option"
  bseq :: "u8 list"

text \<open>
  The label of one position from the labels of the two children, the expression
  \<^verbatim>\<open>(label_l[i] & label_r[i]) ? (label_l[i] & label_r[i]) : (label_l[i] | label_r[i])\<close>.
\<close>

definition fitch_combine :: "u8 \<Rightarrow> u8 \<Rightarrow> u8" where
  "fitch_combine a b = (if a AND b \<noteq> 0 then a AND b else a OR b)"

text \<open>
  The inner \<open>while (n->l && n->l->bseq.empty()) n = n->l;\<close> and the \<open>for (;;)\<close>
  around it.  On a cyclic structure they need not stop, so they are partial functions.
\<close>

partial_function (option) descend_l :: "BNode list \<Rightarrow> nat \<Rightarrow> nat option" where
  "descend_l s n =
     (case bn_l (s ! n) of
        None \<Rightarrow> Some n
      | Some l \<Rightarrow> if bseq (s ! l) = [] then descend_l s l else Some n)"

partial_function (option) descend :: "BNode list \<Rightarrow> nat \<Rightarrow> nat option" where
  "descend s n =
     Option.bind (descend_l s n)
       (\<lambda>n1. case bn_r (s ! n1) of
                None \<Rightarrow> Some n1
              | Some r \<Rightarrow> if bseq (s ! r) = [] then descend s r else Some n1)"

text \<open>
  The labelling of the node the descent stopped at.  With two children the label is
  resized to the left label's length and filled position by position; a right label
  shorter than the left one would be read past its end, which is \<open>None\<close>.

  The function has three \<^verbatim>\<open>assert\<close>s.  Whether they are compiled in depends on the
  build (\<^verbatim>\<open>NDEBUG\<close>), so the model takes a flag: \<open>asserts\<close> is true when they are
  compiled in, and a failing one, which aborts the program, is \<open>None\<close>.  In the branch
  with two children these are \<^verbatim>\<open>assert(!label_l.empty() && (label_l.size() == label_r.size()))\<close>
  before the label is filled and \<^verbatim>\<open>assert(label_n[i])\<close> after every position.
\<close>

definition label_node :: "bool \<Rightarrow> BNode list \<Rightarrow> nat \<Rightarrow> BNode list option" where
  "label_node asserts s n =
     (case (bn_l (s ! n), bn_r (s ! n)) of
        (Some l, Some r) \<Rightarrow>
          let label_l = bseq (s ! l);
              label_r = bseq (s ! r);
              label_n = map2 fitch_combine label_l label_r
          in if asserts \<and> (label_l = [] \<or> length label_l \<noteq> length label_r) then None
             else if length label_r < length label_l then None
             else if asserts \<and> 0 \<in> set label_n then None
             else Some (s[n := (s ! n)\<lparr>bseq := label_n\<rparr>])
      | (Some l, None) \<Rightarrow> Some (s[n := (s ! n)\<lparr>bseq := bseq (s ! l)\<rparr>])
      | (None, Some r) \<Rightarrow> Some (s[n := (s ! n)\<lparr>bseq := bseq (s ! r)\<rparr>])
      | (None, None) \<Rightarrow> Some s)"

text \<open>
  The outer loop \<open>while (n != root.p)\<close>; \<open>stop\<close> is \<open>root.p\<close>.  Following a null
  pointer is \<open>None\<close>.
\<close>

partial_function (option) label_up_loop :: "bool \<Rightarrow> BNode list \<Rightarrow> nat option \<Rightarrow> nat option \<Rightarrow> BNode list option" where
  "label_up_loop asserts s stop n =
     (if n = stop then Some s
      else (case n of
              None \<Rightarrow> None
            | Some k \<Rightarrow>
                Option.bind (descend s k)
                  (\<lambda>m. Option.bind (label_node asserts s m)
                     (\<lambda>s'. label_up_loop asserts s' stop (bn_p (s' ! m))))))"

text \<open>
  \<^verbatim>\<open>fitch_label_up(BNode &root)\<close>, with \<^verbatim>\<open>assert(&root != root.p)\<close> before the loop.
\<close>

definition fitch_label_up :: "bool \<Rightarrow> BNode list \<Rightarrow> nat \<Rightarrow> BNode list option" where
  "fitch_label_up asserts s rt =
     (if asserts \<and> bn_p (s ! rt) = Some rt then None
      else label_up_loop asserts s (bn_p (s ! rt)) (Some rt))"

declare descend_l.simps [code]
declare descend.simps [code]
declare label_up_loop.simps [code]

text \<open>
  The shape of a tree in the node vector: a leaf, a node with only a left or only a
  right child, or a node with both; every constructor carries the node's position.
\<close>

datatype shape = Tip nat | Only_l nat shape | Only_r nat shape | Both nat shape shape

fun top_of :: "shape \<Rightarrow> nat" where
  "top_of (Tip k) = k"
| "top_of (Only_l k t) = k"
| "top_of (Only_r k t) = k"
| "top_of (Both k ta tb) = k"

fun positions :: "shape \<Rightarrow> nat list" where
  "positions (Tip k) = [k]"
| "positions (Only_l k t) = k # positions t"
| "positions (Only_r k t) = k # positions t"
| "positions (Both k ta tb) = k # positions ta @ positions tb"

text \<open>The positions of the nodes that have a child.\<close>

fun inner :: "shape \<Rightarrow> nat list" where
  "inner (Tip k) = []"
| "inner (Only_l k t) = k # inner t"
| "inner (Only_r k t) = k # inner t"
| "inner (Both k ta tb) = k # inner ta @ inner tb"

text \<open>The vector holds the tree \<open>t\<close> below the parent pointer \<open>par\<close>.\<close>

fun holds :: "BNode list \<Rightarrow> nat option \<Rightarrow> shape \<Rightarrow> bool" where
  "holds s par (Tip k) =
     (k < length s \<and> bn_p (s ! k) = par \<and> bn_l (s ! k) = None \<and> bn_r (s ! k) = None)"
| "holds s par (Only_l k t) =
     (k < length s \<and> bn_p (s ! k) = par \<and> bn_l (s ! k) = Some (top_of t) \<and> bn_r (s ! k) = None
      \<and> holds s (Some k) t)"
| "holds s par (Only_r k t) =
     (k < length s \<and> bn_p (s ! k) = par \<and> bn_l (s ! k) = None \<and> bn_r (s ! k) = Some (top_of t)
      \<and> holds s (Some k) t)"
| "holds s par (Both k ta tb) =
     (k < length s \<and> bn_p (s ! k) = par \<and> bn_l (s ! k) = Some (top_of ta) \<and> bn_r (s ! k) = Some (top_of tb)
      \<and> holds s (Some k) ta \<and> holds s (Some k) tb)"

text \<open>
  An initialized label: \<open>len\<close> bitmasks, and, where the \<^verbatim>\<open>assert\<close>s are compiled in, none
  of them zero (\<^verbatim>\<open>bit_encode\<close> gives every character of \<^verbatim>\<open>"ACGT-"\<close> one bit).
\<close>

definition initialized :: "bool \<Rightarrow> nat \<Rightarrow> u8 list \<Rightarrow> bool" where
  "initialized asserts len label = (length label = len \<and> (asserts \<longrightarrow> 0 \<notin> set label))"

text \<open>
  The precondition of \<^verbatim>\<open>fitch_label_up\<close>: the leaves carry initialized labels, here
  all of length \<open>len\<close>, and the labels of the inner nodes are empty.
\<close>

fun unlabelled :: "bool \<Rightarrow> BNode list \<Rightarrow> nat \<Rightarrow> shape \<Rightarrow> bool" where
  "unlabelled asserts s len (Tip k) = initialized asserts len (bseq (s ! k))"
| "unlabelled asserts s len (Only_l k t) = (bseq (s ! k) = [] \<and> unlabelled asserts s len t)"
| "unlabelled asserts s len (Only_r k t) = (bseq (s ! k) = [] \<and> unlabelled asserts s len t)"
| "unlabelled asserts s len (Both k ta tb) =
     (bseq (s ! k) = [] \<and> unlabelled asserts s len ta \<and> unlabelled asserts s len tb)"

text \<open>
  The rule of the upward pass in the words of the specification, on sets.  An ambiguity
  bitmask stands for the set of its bits, one bit for each of \<^verbatim>\<open>"ACGT-"\<close>.
\<close>

definition bases :: "u8 \<Rightarrow> nat set" where
  "bases w = {i \<in> {0..<8}. bit w i}"

text \<open>
  \<open>fitch_rule a b c\<close>: the bitmask \<open>c\<close> is the intersection of the bitmasks \<open>a\<close> and \<open>b\<close>
  when that intersection is non-empty, and otherwise their union.
\<close>

definition fitch_rule :: "u8 \<Rightarrow> u8 \<Rightarrow> u8 \<Rightarrow> bool" where
  "fitch_rule a b c =
     (bases c = (if bases a \<inter> bases b \<noteq> {} then bases a \<inter> bases b else bases a \<union> bases b))"

text \<open>
  The labelling the claim describes: a node with two children carries a label as long
  as theirs that follows the rule at each sequence position, a node with one child
  carries that child's label.
\<close>

fun fitch_labelled :: "BNode list \<Rightarrow> shape \<Rightarrow> bool" where
  "fitch_labelled s (Tip k) = True"
| "fitch_labelled s (Only_l k t) = (bseq (s ! k) = bseq (s ! top_of t) \<and> fitch_labelled s t)"
| "fitch_labelled s (Only_r k t) = (bseq (s ! k) = bseq (s ! top_of t) \<and> fitch_labelled s t)"
| "fitch_labelled s (Both k ta tb) =
     (length (bseq (s ! k)) = length (bseq (s ! top_of ta))
      \<and> length (bseq (s ! k)) = length (bseq (s ! top_of tb))
      \<and> list_all (\<lambda>i. fitch_rule (bseq (s ! top_of ta) ! i) (bseq (s ! top_of tb) ! i) (bseq (s ! k) ! i))
            [0..<length (bseq (s ! k))]
      \<and> fitch_labelled s ta \<and> fitch_labelled s tb)"

text \<open>All labels in the tree are initialized.\<close>

fun all_initialized :: "bool \<Rightarrow> BNode list \<Rightarrow> nat \<Rightarrow> shape \<Rightarrow> bool" where
  "all_initialized asserts s len (Tip k) = initialized asserts len (bseq (s ! k))"
| "all_initialized asserts s len (Only_l k t) =
     (initialized asserts len (bseq (s ! k)) \<and> all_initialized asserts s len t)"
| "all_initialized asserts s len (Only_r k t) =
     (initialized asserts len (bseq (s ! k)) \<and> all_initialized asserts s len t)"
| "all_initialized asserts s len (Both k ta tb) =
     (initialized asserts len (bseq (s ! k)) \<and> all_initialized asserts s len ta \<and> all_initialized asserts s len tb)"

text \<open>
  Two vectors differ at most in the labels at the positions \<open>ps\<close>.
\<close>

definition same_but :: "BNode list \<Rightarrow> BNode list \<Rightarrow> nat list \<Rightarrow> bool" where
  "same_but s s' ps =
     (length s' = length s
      \<and> list_all (\<lambda>i. bn_id (s' ! i) = bn_id (s ! i) \<and> bn_p (s' ! i) = bn_p (s ! i)
                     \<and> bn_l (s' ! i) = bn_l (s ! i) \<and> bn_r (s' ! i) = bn_r (s ! i)
                     \<and> (i \<in> set ps \<or> bseq (s' ! i) = bseq (s ! i))) [0..<length s])"

section \<open>Verification: the distance table\<close>

subsection \<open>Hamming distance and flat indexing\<close>

lemma hamming_distance_le:
  "length a \<le> length b \<Longrightarrow> hamming_distance a b = Some (of_nat (mismatches a b))"
proof (induction a b rule: hamming_distance.induct)
  case (1 b) show ?case by (simp add: mismatches_def)
next
  case (2 x a) then show ?case by simp
next
  case (3 x a y b)
  then show ?case by (simp add: mismatches_def)
qed

lemma mismatches_sym: "mismatches a b = mismatches b a"
  unfolding mismatches_def
proof (induction a arbitrary: b)
  case Nil show ?case by simp
next
  case (Cons x a) show ?case by (cases b) (auto simp: Cons.IH)
qed


lemma mismatches_self: "mismatches a a = 0"
  unfolding mismatches_def by (induction a) auto

lemma flat_index_inj:
  "b < n \<Longrightarrow> j < n \<Longrightarrow> (a * n + b = i * n + j) = (a = i \<and> b = (j::nat))"
  by (metis add.commute add_diff_cancel_left' div_mult_self1 div_less less_nat_zero_code mult.commute add_cancel_left_left mod_mult_self3 mod_less)

lemma flat_index_less: "i < r \<Longrightarrow> j < c \<Longrightarrow> i * c + j < r * (c::nat)"
proof -
  assume a: "i < r" "j < c"
  then have "i * c + j < i * c + c" by simp
  also have "\<dots> = (Suc i) * c" by simp
  also have "\<dots> \<le> r * c" using a by (intro mult_le_mono1) simp
  finally show ?thesis .
qed

lemma concat_map_index:
  "i < r \<Longrightarrow> j < c \<Longrightarrow> concat (map (\<lambda>i. map (f i) [0..<c]) [0..<r]) ! (i * c + j) = f i j"
proof (induction r)
  case 0 then show ?case by simp
next
  case (Suc r)
  have len: "length (concat (map (\<lambda>i. map (f i) [0..<c]) [0..<r])) = r * c"
    by (induction r) auto
  show ?case
  proof (cases "i < r")
    case True
    then have "i * c + j < r * c" using Suc.prems by (simp add: flat_index_less)
    then show ?thesis using Suc True by (simp add: nth_append len)
  next
    case False
    then have "i = r" using Suc.prems by simp
    then show ?thesis using Suc.prems by (simp add: nth_append len)
  qed
qed

lemma concat_map_length:
  "length (concat (map (\<lambda>i. map (f i) [0..<c]) [0..<r])) = r * c"
  by (induction r) auto

subsection \<open>The first loop nest\<close>

lemma mat_put_dims [simp]:
  "rows (mat_put m ij v) = rows m" "cols (mat_put m ij v) = cols m"
  "length (buf (mat_put m ij v)) = length (buf m)"
  by (simp_all add: mat_put_def)

lemma mat_at_put:
  assumes "cols m = n" "length (buf m) = n * n" "i < n" "j < n" "b < n"
  shows "mat_at (mat_put m (i, j) v) (a, b) = (if a = i \<and> b = j then v else mat_at m (a, b))"
proof -
  have lt: "i * n + j < length (buf m)" using assms flat_index_less[of i n j n] by simp
  have inj: "(a * n + b = i * n + j) = (a = i \<and> b = j)"
    using assms flat_index_inj[of b n j a i] by simp
  show ?thesis
  proof (cases "a = i \<and> b = j")
    case True
    then show ?thesis using lt assms(1) by (simp add: mat_at_def mat_put_def)
  next
    case False
    then have "i * n + j \<noteq> a * n + b" using inj by metis
    then show ?thesis using False assms(1) by (auto simp: mat_at_def mat_put_def)
  qed
qed

lemma fill_distances_spec:
  assumes "\<forall>s \<in> set sequences. length s = L" "length sequences = n"
    and "\<forall>(i, j) \<in> set ps. j < i \<and> i < n"
    and "cols m = n" "rows m = n" "length (buf m) = n * n"
  shows "\<exists>m'. fill_distances sequences ps m = Some m' \<and> cols m' = n \<and> rows m' = n
           \<and> length (buf m') = n * n
           \<and> (\<forall>a b. b < n \<longrightarrow> mat_at m' (a, b) =
                 (if (a, b) \<in> set ps \<or> (b, a) \<in> set ps
                  then of_nat (mismatches (sequences ! a) (sequences ! b))
                  else mat_at m (a, b)))"
  using assms(3-)
proof (induction ps arbitrary: m)
  case Nil
  then show ?case by simp
next
  case (Cons p ps)
  obtain i j where p: "p = (i, j)" by (cases p)
  from Cons.prems p have ij: "j < i" "i < n" by auto
  then have jn: "j < n" by simp
  have len: "length (sequences ! i) = L" "length (sequences ! j) = L"
    using assms(1,2) ij jn by auto
  let ?d = "of_nat (mismatches (sequences ! i) (sequences ! j)) :: u32"
  have hd: "hamming_distance (sequences ! i) (sequences ! j) = Some ?d"
    using len by (simp add: hamming_distance_le)
  let ?m1 = "mat_put (mat_put m (j, i) ?d) (i, j) ?d"
  have m1: "cols ?m1 = n" "rows ?m1 = n" "length (buf ?m1) = n * n"
    using Cons.prems by simp_all
  have rest: "\<forall>(i, j) \<in> set ps. j < i \<and> i < n" using Cons.prems by auto
  from Cons.IH[OF rest m1] obtain m' where
    m': "fill_distances sequences ps ?m1 = Some m'" "cols m' = n" "rows m' = n"
        "length (buf m') = n * n"
        "\<forall>a b. b < n \<longrightarrow> mat_at m' (a, b) =
                 (if (a, b) \<in> set ps \<or> (b, a) \<in> set ps
                  then of_nat (mismatches (sequences ! a) (sequences ! b))
                  else mat_at ?m1 (a, b))"
    by blast
  have at1: "mat_at ?m1 (a, b) =
      (if (a = i \<and> b = j) \<or> (a = j \<and> b = i) then ?d else mat_at m (a, b))" if "b < n" for a b
  proof -
    have c1: "cols (mat_put m (j, i) ?d) = n" "length (buf (mat_put m (j, i) ?d)) = n * n"
      using Cons.prems by simp_all
    have e1: "mat_at ?m1 (a, b) = (if a = i \<and> b = j then ?d else mat_at (mat_put m (j, i) ?d) (a, b))"
      by (rule mat_at_put[OF c1 ij(2) jn that])
    have e2: "mat_at (mat_put m (j, i) ?d) (a, b) = (if a = j \<and> b = i then ?d else mat_at m (a, b))"
      by (rule mat_at_put[OF Cons.prems(2) Cons.prems(4) jn ij(2) that])
    show ?thesis by (simp only: e1 e2 split: if_split) blast
  qed
  have "fill_distances sequences (p # ps) m = Some m'"
    using p hd m'(1) by simp
  moreover have "\<forall>a b. b < n \<longrightarrow> mat_at m' (a, b) =
                 (if (a, b) \<in> set (p # ps) \<or> (b, a) \<in> set (p # ps)
                  then of_nat (mismatches (sequences ! a) (sequences ! b))
                  else mat_at m (a, b))"
  proof (intro allI impI)
    fix a b assume bn: "b < n"
    have sym: "mismatches (sequences ! j) (sequences ! i) = mismatches (sequences ! i) (sequences ! j)"
      by (rule mismatches_sym)
    have k: "mat_at m' (a, b) =
                 (if (a, b) \<in> set ps \<or> (b, a) \<in> set ps
                  then of_nat (mismatches (sequences ! a) (sequences ! b))
                  else mat_at ?m1 (a, b))"
      using m'(5) bn by blast
    have mem: "((a, b) \<in> set (p # ps) \<or> (b, a) \<in> set (p # ps)) =
          ((a = i \<and> b = j) \<or> (a = j \<and> b = i) \<or> (a, b) \<in> set ps \<or> (b, a) \<in> set ps)"
      unfolding p by auto
    note a1 = at1[OF bn, of a]
    show "mat_at m' (a, b) =
                 (if (a, b) \<in> set (p # ps) \<or> (b, a) \<in> set (p # ps)
                  then of_nat (mismatches (sequences ! a) (sequences ! b))
                  else mat_at m (a, b))"
    proof (cases "(a, b) \<in> set ps \<or> (b, a) \<in> set ps")
      case True
      then show ?thesis unfolding mem k by (simp only: if_True simp_thms)
    next
      case F: False
      show ?thesis
      proof (cases "a = i \<and> b = j")
        case True
        then show ?thesis unfolding mem k a1 using F by (simp only: if_True if_False simp_thms)
      next
        case G: False
        show ?thesis
        proof (cases "a = j \<and> b = i")
          case True
          then show ?thesis unfolding mem k a1 using F sym by (simp only: if_True if_False simp_thms)
        next
          case False
          then show ?thesis unfolding mem k a1 using F G by (simp only: if_True if_False simp_thms)
        qed
      qed
    qed
  qed
  ultimately show ?case using m'(2-4) by blast
qed

lemma set_lower_pairs: "set (lower_pairs n) = {(i, j). j < i \<and> i < n}"
  by (auto simp: lower_pairs_def)

lemma Matrix_init_dims [simp]:
  "rows (Matrix_init r c d) = r" "cols (Matrix_init r c d) = c"
  "length (buf (Matrix_init r c d)) = r * c"
  by (simp_all add: Matrix_init_def)

lemma mat_at_init: "i < r \<Longrightarrow> j < c \<Longrightarrow> mat_at (Matrix_init r c d) (i, j) = d"
  using flat_index_less[of i r j c] by (simp add: mat_at_def Matrix_init_def)

lemma fill_lower_pairs:
  assumes "\<forall>s \<in> set sequences. length s = L" "length sequences = n"
  shows "\<exists>m'. fill_distances sequences (lower_pairs n) (Matrix_init n n 0) = Some m'
           \<and> cols m' = n \<and> rows m' = n \<and> length (buf m') = n * n
           \<and> (\<forall>a b. a < n \<longrightarrow> b < n \<longrightarrow> mat_at m' (a, b) =
                  of_nat (mismatches (sequences ! a) (sequences ! b)))"
proof -
  have pre: "\<forall>(i, j) \<in> set (lower_pairs n). j < i \<and> i < n" by (simp add: set_lower_pairs)
  from fill_distances_spec[OF assms pre, of "Matrix_init n n 0"]
  obtain m' where m': "fill_distances sequences (lower_pairs n) (Matrix_init n n 0) = Some m'"
     "cols m' = n" "rows m' = n" "length (buf m') = n * n"
     "\<forall>a b. b < n \<longrightarrow> mat_at m' (a, b) =
                 (if (a, b) \<in> set (lower_pairs n) \<or> (b, a) \<in> set (lower_pairs n)
                  then of_nat (mismatches (sequences ! a) (sequences ! b))
                  else mat_at (Matrix_init n n 0) (a, b))"
    by auto
  have "mat_at m' (a, b) = of_nat (mismatches (sequences ! a) (sequences ! b))"
    if "a < n" "b < n" for a b
  proof (cases "a = b")
    case True
    then show ?thesis using m'(5) that by (simp add: set_lower_pairs mat_at_init mismatches_self)
  next
    case False
    then have "a < b \<or> b < a" by auto
    then show ?thesis using m'(5) that by (auto simp: set_lower_pairs)
  qed
  then show ?thesis using m'(1-4) by blast
qed

subsection \<open>Packing two 16-bit fields\<close>




subsection \<open>The packed table\<close>

lemma mat_row0:
  assumes "cols m = n" "length (buf m) = n * n" "j < n"
  shows "mat_row m 0 ! j = mat_at m (0, j)"
proof -
  have "n \<le> n * n" using assms(3) by (cases n) simp_all
  then show ?thesis using assms by (simp add: mat_row_def mat_at_def)
qed

lemma pack_root_dims [simp]:
  "rows (pack_root m) = rows m" "cols (pack_root m) = cols m"
  "length (buf (pack_root m)) = rows m * cols m"
  by (simp_all add: pack_root_def Let_def concat_map_length)

lemma pack_root_at:
  assumes "rows m = n" "cols m = n" "length (buf m) = n * n" "i < n" "j < n"
  shows "mat_at (pack_root m) (i, j) = push_bit 16 (mat_at m (i, j)) OR mat_at m (0, j)"
proof -
  have "mat_at (pack_root m) (i, j) =
        concat (map (\<lambda>i. map (\<lambda>j. push_bit 16 (mat_at m (i, j)) OR mat_row m 0 ! j) [0..<n]) [0..<n])
          ! (i * n + j)"
    using assms(1,2) by (simp add: pack_root_def Let_def mat_at_def)
  also have "\<dots> = push_bit 16 (mat_at m (i, j)) OR mat_row m 0 ! j"
    using assms(4,5) by (rule concat_map_index)
  finally show ?thesis using mat_row0[OF assms(2,3,5)] by simp
qed

lemma make_distance_matrix_equal_length:
  assumes "\<forall>s \<in> set sequences. length s = L" "length sequences = n"
  shows "\<exists>dism. make_distance_matrix sequences = Some dism
           \<and> rows dism = n \<and> cols dism = n \<and> length (buf dism) = n * n
           \<and> (\<forall>i j. i < n \<longrightarrow> j < n \<longrightarrow> mat_at dism (i, j) =
                  push_bit 16 (of_nat (mismatches (sequences ! i) (sequences ! j)))
                  OR of_nat (mismatches (sequences ! 0) (sequences ! j)))"
proof -
  from fill_lower_pairs[OF assms] obtain m' where
    m': "fill_distances sequences (lower_pairs n) (Matrix_init n n 0) = Some m'"
        "cols m' = n" "rows m' = n" "length (buf m') = n * n"
        "\<forall>a b. a < n \<longrightarrow> b < n \<longrightarrow> mat_at m' (a, b) =
                  of_nat (mismatches (sequences ! a) (sequences ! b))"
    by blast
  have "make_distance_matrix sequences = Some (pack_root m')"
    using m'(1) assms(2) by (simp add: make_distance_matrix_def)
  moreover have "mat_at (pack_root m') (i, j) =
                  push_bit 16 (of_nat (mismatches (sequences ! i) (sequences ! j)))
                  OR of_nat (mismatches (sequences ! 0) (sequences ! j))" if "i < n" "j < n" for i j
  proof -
    have "0 < n" using that by simp
    then show ?thesis
      using pack_root_at[OF m'(3,2,4) that] m'(5) that by simp
  qed
  ultimately show ?thesis using m'(2-4) by simp
qed



lemma lower_pairs_2: "lower_pairs 2 = [(1, 0)]"
  by (simp add: lower_pairs_def numeral_2_eq_2)

lemma Matrix_init_2: "Matrix_init 2 2 (0::u32) = \<lparr>rows = 2, cols = 2, buf = [0, 0, 0, 0]\<rparr>"
  by (simp add: Matrix_init_def numeral_eq_Suc)

lemma make_distance_matrix_two:
  assumes "hamming_distance s1 s0 = Some d"
  shows "make_distance_matrix [s0, s1] =
     Some \<lparr>rows = 2, cols = 2, buf = [0, push_bit 16 d OR d, push_bit 16 d, push_bit 16 0 OR d]\<rparr>"
proof -
  have f: "fill_distances [s0, s1] (lower_pairs 2) (Matrix_init 2 2 0)
           = Some \<lparr>rows = 2, cols = 2, buf = [0, d, d, 0]\<rparr>"
    unfolding lower_pairs_2 Matrix_init_2 using assms by (simp add: mat_put_def)
  have p: "pack_root \<lparr>rows = 2, cols = 2, buf = [0, d, d, 0]\<rparr>
       = \<lparr>rows = 2, cols = 2, buf = [0, push_bit 16 d OR d, push_bit 16 d, push_bit 16 0 OR d]\<rparr>"
    by (simp add: pack_root_def mat_row_def mat_at_def numeral_2_eq_2)
  have l: "length [s0, s1] = 2" by simp
  show ?thesis unfolding make_distance_matrix_def l f option.case p ..
qed

lemma fill_distances_some:
  assumes "\<forall>(i, j) \<in> set ps. length (sequences ! i) \<le> length (sequences ! j)"
  shows "\<exists>m'. fill_distances sequences ps m = Some m' \<and> rows m' = rows m \<and> cols m' = cols m"
  using assms
proof (induction ps arbitrary: m)
  case Nil
  then show ?case by simp
next
  case (Cons p ps)
  obtain i j where p: "p = (i, j)" by (cases p)
  have le: "length (sequences ! i) \<le> length (sequences ! j)" using Cons.prems p by simp
  have rest: "\<forall>(i, j) \<in> set ps. length (sequences ! i) \<le> length (sequences ! j)"
    using Cons.prems by simp
  let ?d = "of_nat (mismatches (sequences ! i) (sequences ! j)) :: u32"
  from Cons.IH[OF rest, of "mat_put (mat_put m (j, i) ?d) (i, j) ?d"]
  show ?case using hamming_distance_le[OF le] p by simp
qed

subsection \<open>Claims about \<^verbatim>\<open>make_distance_matrix\<close>\<close>




text \<open>
  Claim C4, as amended.  \<^verbatim>\<open>make_distance_matrix\<close> has no length check and raises
  nothing.  Whenever no sequence is longer than one that precedes it in the list (equal
  lengths included) it returns an \<open>N \<times> N\<close> table.
\<close>

theorem make_distance_matrix_no_length_check:
  assumes "\<forall>i j. j < i \<longrightarrow> i < length sequences \<longrightarrow> length (sequences ! i) \<le> length (sequences ! j)"
  shows "\<exists>dism. make_distance_matrix sequences = Some dism
            \<and> rows dism = length sequences \<and> cols dism = length sequences"
proof -
  have "\<forall>(i, j) \<in> set (lower_pairs (length sequences)). length (sequences ! i) \<le> length (sequences ! j)"
    using assms by (simp add: set_lower_pairs)
  from fill_distances_some[OF this, of "Matrix_init (length sequences) (length sequences) 0"]
  show ?thesis by (auto simp: make_distance_matrix_def)
qed

text \<open>Claim C4, witness: three sequences of lengths 3, 2 and 1.\<close>

theorem make_distance_matrix_no_length_check_witness:
  "length ''ACG'' \<noteq> length ''AC''
   \<and> make_distance_matrix [''ACG'', ''AC'', ''A''] \<noteq> None
   \<and> rows (the (make_distance_matrix [''ACG'', ''AC'', ''A''])) = 3"
proof -
  have "\<forall>i j. j < i \<longrightarrow> i < length [''ACG'', ''AC'', ''A'']
          \<longrightarrow> length ([''ACG'', ''AC'', ''A''] ! i) \<le> length ([''ACG'', ''AC'', ''A''] ! j)"
    by (auto simp: less_Suc_eq numeral_3_eq_3 nth_Cons')
  from make_distance_matrix_no_length_check[OF this]
  show ?thesis by auto
qed

text \<open>
  Claim C4, counterexample: two sequences of different lengths, and the function returns
  a table.
\<close>

theorem make_distance_matrix_unequal_counterexample:
  "length ''AC'' \<noteq> length ''A''
   \<and> make_distance_matrix [''AC'', ''A''] = Some \<lparr>rows = 2, cols = 2, buf = [0, 0, 0, 0]\<rparr>"
proof -
  have h: "hamming_distance ''A'' ''AC'' = Some 0" by simp
  show ?thesis unfolding make_distance_matrix_two[OF h] by simp
qed

section \<open>Verification: the Markov model\<close>

lemma lut_less: "lut ch < 4"
  by (simp add: lut_def)

lemma npos_ge: "4 \<le> npos"
proof -
  have "(4::nat) \<le> 2 ^ 64 - 1" by simp
  then show ?thesis by (simp only: npos_def)
qed

lemma lut_not_npos: "lut ch \<noteq> npos"
  using lut_less[of ch] npos_ge by linarith

lemma tally_site_eq:
  "tally_site acc p c = Inr (mat_put (fst acc) (lut c, lut p) (mat_at (fst acc) (lut c, lut p) + 1),
                   (snd acc)[lut p := snd acc ! lut p + 1])"
  by (simp add: tally_site_def Let_def lut_not_npos)

lemma tally_edge_no_throw: "tally_edge acc pnts cnts \<noteq> Inl DomainError"
  by (induction acc pnts cnts rule: tally_edge.induct) (simp_all add: tally_site_eq)

lemma tally_edges_no_throw: "tally_edges sequences acc adj_list \<noteq> Inl DomainError"
  by (induction sequences acc adj_list rule: tally_edges.induct)
     (auto simp: tally_edge_no_throw split: sum.splits)

lemma infer_markov_model_never_throws: "infer_markov_model sequences adj_list \<noteq> Inl DomainError"
  using tally_edges_no_throw[of sequences "(Matrix_init 4 4 0, replicate 4 0)" adj_list]
  by (auto simp: infer_markov_model_def split: sum.splits)

lemma upt4: "[0..<4] = [0, 1, 2, 3]"
  by (simp add: upt_rec)

text \<open>
  Claim C3.  The claim asks for a domain error on any character outside ACGT.  The table
  lookup never yields \<^verbatim>\<open>npos\<close> (see \<open>infer_markov_model_never_throws\<close>), so the throw
  is dead code; evaluated on a parent sequence holding a gap, the function returns a
  matrix in which the gap was counted as parent base A: column A reads one half A and
  one half C.
\<close>

theorem infer_markov_model_counts_gap:
  "infer_markov_model [''A-'', ''AC'']
     [\<lparr>parent = 0, child = 1, distance = 1, weight = Some 1\<rparr>]
   = Inr \<lparr>rows = 4, cols = 4,
          buf = [1 / 2, 0, 0, 0,
                 1 / 2, 1, 0, 0,
                 0, 0, 1, 0,
                 0, 0, 0, 1]\<rparr>"
  by (simp add: infer_markov_model_def tally_site_eq lut_def Matrix_init_def mat_put_def
      mat_at_def normalise_column_def upt4 numeral_eq_Suc)

section \<open>Verification: the work split\<close>

lemma upt3: "[0..<3] = [0, 1, 2]"
  by (simp add: upt_rec)

lemma upt5: "[0..<5] = [0, 1, 2, 3, 4]"
  by (simp add: upt_rec)

lemma simulate_step_ranges_5_3: "simulate_step_ranges 5 3 = [(0, 3), (3, 6), (6, 9)]"
  by (simp add: simulate_step_ranges_def worker_range_def chunk_def upt3)

lemma lower_pairs_5:
  "lower_pairs 5 = [(1, 0), (2, 0), (2, 1), (3, 0), (3, 1), (3, 2), (4, 0), (4, 1), (4, 2), (4, 3)]"
  by (simp add: lower_pairs_def upt5 upt_rec)

text \<open>
  Claim C2.  The claim asks that the workers' ranges partition all \<open>n * (n - 1) div 2\<close>
  pair indices.  With 5 nodes and 3 workers the ranges end at 9 while there are 10 pairs:
  the last pair, nodes 4 and 3, is in no range.
\<close>

theorem simulate_step_drops_remainder:
  "simulate_step_ranges 5 3 = [(0, 3), (3, 6), (6, 9)]
   \<and> map worker_indices (simulate_step_ranges 5 3) = [Some [0, 1, 2], Some [3, 4, 5], Some [6, 7, 8]]
   \<and> length (lower_pairs 5) = 10
   \<and> lower_pairs 5 ! 9 = (4, 3)
   \<and> \<not> covered 5 3 9"
  by (simp add: simulate_step_ranges_5_3 lower_pairs_5 covered_def worker_indices_def upt_rec)

section \<open>Verification: alignment of identical sequences\<close>

lemma nucleotide_cases:
  assumes "x \<in> {CHR ''A'', CHR ''C'', CHR ''G'', CHR ''T''}"
  shows "x = CHR ''A'' \<or> x = CHR ''C'' \<or> x = CHR ''G'' \<or> x = CHR ''T''"
  using assms by auto

lemma codon_translates:
  assumes "a \<in> {CHR ''A'', CHR ''C'', CHR ''G'', CHR ''T''}"
      and "b \<in> {CHR ''A'', CHR ''C'', CHR ''G'', CHR ''T''}"
      and "c \<in> {CHR ''A'', CHR ''C'', CHR ''G'', CHR ''T''}"
  shows "\<exists>aa. map_of translation [a, b, c] = Some aa \<and> aa \<noteq> CHR ''-''"
  using nucleotide_cases[OF assms(1)] nucleotide_cases[OF assms(2)] nucleotide_cases[OF assms(3)]
  by (elim disjE) (simp_all add: translation_def)

lemma nucleotide_not_gap:
  "x \<in> {CHR ''A'', CHR ''C'', CHR ''G'', CHR ''T''} \<Longrightarrow> x \<noteq> CHR ''-''"
  by auto

lemma length_9_cases:
  assumes "length s = 9"
  obtains c0 c1 c2 c3 c4 c5 c6 c7 c8 where "s = [c0, c1, c2, c3, c4, c5, c6, c7, c8]"
proof -
  from assms have "length s = Suc (Suc (Suc (Suc (Suc (Suc (Suc (Suc (Suc 0))))))))" by simp
  then show ?thesis using that by (auto simp: length_Suc_conv)
qed

lemma find_codon_boundaries_9:
  assumes "c0 \<noteq> CHR ''-''" "c1 \<noteq> CHR ''-''" "c2 \<noteq> CHR ''-''" "c3 \<noteq> CHR ''-''" "c4 \<noteq> CHR ''-''"
    "c5 \<noteq> CHR ''-''" "c6 \<noteq> CHR ''-''" "c7 \<noteq> CHR ''-''" "c8 \<noteq> CHR ''-''"
  shows "find_codon_boundaries [c0, c1, c2, c3, c4, c5, c6, c7, c8] = [(0, 3), (3, 3), (6, 3)]"
  using assms by (simp add: find_codon_boundaries_def)

lemma match_entry_disjoint:
  "lo + len \<le> lo' \<or> lo' + len' \<le> lo \<Longrightarrow> match_entry seqa seqb (lo, len) (lo', len') = NegInf"
  by (auto simp: match_entry_def intersect_def Let_def)

lemma match_entry_same:
  assumes "seq ! lo \<noteq> CHR ''-''" "seq ! (lo + 1) \<noteq> CHR ''-''" "seq ! (lo + 2) \<noteq> CHR ''-''"
  shows "match_entry seq seq (lo, 3) (lo, 3) = Val 3"
proof -
  have i: "intersect (lo, 3) (lo, 3) = Some (lo, 3)" by (simp add: intersect_def Let_def)
  have u: "[lo..<lo + 3] = [lo, lo + 1, lo + 2]"
    by (simp add: upt_rec numeral_3_eq_3)
  have f: "filter (\<lambda>k. seq ! k = seq ! k \<and> seq ! k \<noteq> CHR ''-'') [lo, lo + 1, lo + 2]
           = [lo, lo + 1, lo + 2]"
    using assms by simp
  show ?thesis unfolding match_entry_def i by (simp only: u f option.case prod.case) simp
qed

lemma match_matrix_9:
  assumes "c0 \<noteq> CHR ''-''" "c1 \<noteq> CHR ''-''" "c2 \<noteq> CHR ''-''" "c3 \<noteq> CHR ''-''" "c4 \<noteq> CHR ''-''"
    "c5 \<noteq> CHR ''-''" "c6 \<noteq> CHR ''-''" "c7 \<noteq> CHR ''-''" "c8 \<noteq> CHR ''-''"
  shows "match_matrix [c0, c1, c2, c3, c4, c5, c6, c7, c8] [c0, c1, c2, c3, c4, c5, c6, c7, c8]
           [(0, 3), (3, 3), (6, 3)] [(0, 3), (3, 3), (6, 3)]
         = \<lparr>rows = 3, cols = 3,
            buf = [Val 3, NegInf, NegInf, NegInf, Val 3, NegInf, NegInf, NegInf, Val 3]\<rparr>"
proof -
  let ?s = "[c0, c1, c2, c3, c4, c5, c6, c7, c8]"
  have d0: "match_entry ?s ?s (0, 3) (0, 3) = Val 3"
    by (rule match_entry_same) (use assms in simp_all)
  have d3: "match_entry ?s ?s (3, 3) (3, 3) = Val 3"
    by (rule match_entry_same) (use assms in simp_all)
  have d6: "match_entry ?s ?s (6, 3) (6, 3) = Val 3"
    by (rule match_entry_same) (use assms in simp_all)
  have o: "match_entry ?s ?s (0, 3) (3, 3) = NegInf" "match_entry ?s ?s (0, 3) (6, 3) = NegInf"
    "match_entry ?s ?s (3, 3) (0, 3) = NegInf" "match_entry ?s ?s (3, 3) (6, 3) = NegInf"
    "match_entry ?s ?s (6, 3) (0, 3) = NegInf" "match_entry ?s ?s (6, 3) (3, 3) = NegInf"
    by (rule match_entry_disjoint, simp)+
  have l: "length [(0::nat, 3::nat), (3, 3), (6, 3)] = 3" by simp
  show ?thesis
    unfolding match_matrix_def l upt3 by (simp add: d0 d3 d6 o)
qed

lemma fill_trace_diag:
  "fill_trace \<lparr>rows = 3, cols = 3,
       buf = [Val 3, NegInf, NegInf, NegInf, Val 3, NegInf, NegInf, NegInf, Val 3]\<rparr> 4 3 3
   = \<lparr>rows = 4, cols = 4,
      buf =
      [\<lparr>mv = CHR 0x00, score = Val 0\<rparr>, \<lparr>mv = CHR ''a'', score = Val 0\<rparr>,
       \<lparr>mv = CHR ''a'', score = Val 0\<rparr>, \<lparr>mv = CHR ''a'', score = Val 0\<rparr>,
       \<lparr>mv = CHR ''b'', score = Val 0\<rparr>, \<lparr>mv = CHR ''m'', score = Val 3\<rparr>,
       \<lparr>mv = CHR ''a'', score = Val (- 1)\<rparr>,
       \<lparr>mv = CHR ''a'', score = Val (- 1)\<rparr>, \<lparr>mv = CHR ''b'', score = Val 0\<rparr>,
       \<lparr>mv = CHR ''b'', score = Val (- 1)\<rparr>, \<lparr>mv = CHR ''m'', score = Val 6\<rparr>,
       \<lparr>mv = CHR ''a'', score = Val 6\<rparr>, \<lparr>mv = CHR ''b'', score = Val 0\<rparr>,
       \<lparr>mv = CHR ''b'', score = Val (- 1)\<rparr>, \<lparr>mv = CHR ''b'', score = Val 6\<rparr>,
       \<lparr>mv = CHR ''m'', score = Val 9\<rparr>]\<rparr>"
  by code_simp

lemma translate_codon:
  assumes "map_of translation [a, b, c] = Some aa"
    and "a \<noteq> CHR ''-''" "b \<noteq> CHR ''-''" "c \<noteq> CHR ''-''"
  shows "translate [a, b, c] = Inr [aa]"
  using assms by (simp add: translate_def Let_def)

lemma translate_9:
  assumes "map_of translation [c0, c1, c2] = Some aa0"
    and "map_of translation [c3, c4, c5] = Some aa1"
    and "map_of translation [c6, c7, c8] = Some aa2"
    and "c0 \<noteq> CHR ''-''" "c1 \<noteq> CHR ''-''" "c2 \<noteq> CHR ''-''" "c3 \<noteq> CHR ''-''" "c4 \<noteq> CHR ''-''"
    "c5 \<noteq> CHR ''-''" "c6 \<noteq> CHR ''-''" "c7 \<noteq> CHR ''-''" "c8 \<noteq> CHR ''-''"
  shows "translate [c0, c1, c2, c3, c4, c5, c6, c7, c8] = Inr [aa0, aa1, aa2]"
  using assms by (simp add: translate_def Let_def)

lemma residue_codon:
  assumes "translate (take len (drop lo seq)) = Inr [aa]"
  shows "residue seq (lo, len) = Inr aa"
  using assms by (simp add: residue_def)

lemma walk_back_diag:
  fixes seq :: string
  assumes r0: "residue seq (0, 3) = Inr aa0"
      and r1: "residue seq (3, 3) = Inr aa1"
      and r2: "residue seq (6, 3) = Inr aa2"
  shows "walk_back \<lparr>rows = 4, cols = 4,
      buf =
      [\<lparr>mv = CHR 0x00, score = Val 0\<rparr>, \<lparr>mv = CHR ''a'', score = Val 0\<rparr>,
       \<lparr>mv = CHR ''a'', score = Val 0\<rparr>, \<lparr>mv = CHR ''a'', score = Val 0\<rparr>,
       \<lparr>mv = CHR ''b'', score = Val 0\<rparr>, \<lparr>mv = CHR ''m'', score = Val 3\<rparr>,
       \<lparr>mv = CHR ''a'', score = Val (- 1)\<rparr>,
       \<lparr>mv = CHR ''a'', score = Val (- 1)\<rparr>, \<lparr>mv = CHR ''b'', score = Val 0\<rparr>,
       \<lparr>mv = CHR ''b'', score = Val (- 1)\<rparr>, \<lparr>mv = CHR ''m'', score = Val 6\<rparr>,
       \<lparr>mv = CHR ''a'', score = Val 6\<rparr>, \<lparr>mv = CHR ''b'', score = Val 0\<rparr>,
       \<lparr>mv = CHR ''b'', score = Val (- 1)\<rparr>, \<lparr>mv = CHR ''b'', score = Val 6\<rparr>,
       \<lparr>mv = CHR ''m'', score = Val 9\<rparr>]\<rparr> seq seq [(0, 3), (3, 3), (6, 3)] [(0, 3), (3, 3), (6, 3)]
      3 3 [] [] = Inr ([aa2, aa1, aa0], [aa2, aa1, aa0])"
  apply (subst walk_back.simps)
  apply (simp add: mat_at_def Let_def r2)
  apply (subst walk_back.simps)
  apply (simp add: mat_at_def Let_def r1)
  apply (subst walk_back.simps)
  apply (simp add: mat_at_def Let_def r0)
  apply (subst walk_back.simps)
  apply (simp add: mat_at_def Let_def)
  done

lemma diff_loop_same: "diff_loop t t j muts = Inr muts"
  by (induction t arbitrary: j muts) simp_all

lemma tally_same: "tally_alignment_mutations t t = Inr []"
  by (simp add: tally_alignment_mutations_def diff_loop_same)

text \<open>
  Claim C10.  For two identical ungapped sequences of 9 nucleotides the constrained
  alignment (default gap penalty 4) returns twice the same string of 3 residues without
  a gap character, the translation of the sequence, and the mutation tally of that
  alignment is the empty string.
\<close>

theorem identical_sequences_align_without_mutations:
  assumes "length s = 9" and "set s \<subseteq> {CHR ''A'', CHR ''C'', CHR ''G'', CHR ''T''}"
  shows "\<exists>aas. contrained_nw_align s s 4 = Inr (aas, aas) \<and> translate s = Inr aas
           \<and> length aas = 3 \<and> CHR ''-'' \<notin> set aas
           \<and> tally_alignment_mutations aas aas = Inr []"
proof -
  from assms(1) obtain c0 c1 c2 c3 c4 c5 c6 c7 c8 where s: "s = [c0, c1, c2, c3, c4, c5, c6, c7, c8]"
    by (rule length_9_cases)
  have nt: "c0 \<in> {CHR ''A'', CHR ''C'', CHR ''G'', CHR ''T''}" "c1 \<in> {CHR ''A'', CHR ''C'', CHR ''G'', CHR ''T''}"
    "c2 \<in> {CHR ''A'', CHR ''C'', CHR ''G'', CHR ''T''}" "c3 \<in> {CHR ''A'', CHR ''C'', CHR ''G'', CHR ''T''}"
    "c4 \<in> {CHR ''A'', CHR ''C'', CHR ''G'', CHR ''T''}" "c5 \<in> {CHR ''A'', CHR ''C'', CHR ''G'', CHR ''T''}"
    "c6 \<in> {CHR ''A'', CHR ''C'', CHR ''G'', CHR ''T''}" "c7 \<in> {CHR ''A'', CHR ''C'', CHR ''G'', CHR ''T''}"
    "c8 \<in> {CHR ''A'', CHR ''C'', CHR ''G'', CHR ''T''}"
    using assms(2) unfolding s by simp_all
  note ng = nt[THEN nucleotide_not_gap]
  from codon_translates[OF nt(1,2,3)] obtain aa0 where
    a0: "map_of translation [c0, c1, c2] = Some aa0" "aa0 \<noteq> CHR ''-''" by blast
  from codon_translates[OF nt(4,5,6)] obtain aa1 where
    a1: "map_of translation [c3, c4, c5] = Some aa1" "aa1 \<noteq> CHR ''-''" by blast
  from codon_translates[OF nt(7,8,9)] obtain aa2 where
    a2: "map_of translation [c6, c7, c8] = Some aa2" "aa2 \<noteq> CHR ''-''" by blast
  have r0: "residue s (0, 3) = Inr aa0"
    by (rule residue_codon) (simp add: s translate_codon[OF a0(1) ng(1,2,3)])
  have r1: "residue s (3, 3) = Inr aa1"
    by (rule residue_codon) (simp add: s translate_codon[OF a1(1) ng(4,5,6)])
  have r2: "residue s (6, 3) = Inr aa2"
    by (rule residue_codon) (simp add: s translate_codon[OF a2(1) ng(7,8,9)])
  have cb: "find_codon_boundaries s = [(0, 3), (3, 3), (6, 3)]"
    unfolding s by (rule find_codon_boundaries_9[OF ng])
  have mm: "match_matrix s s [(0, 3), (3, 3), (6, 3)] [(0, 3), (3, 3), (6, 3)]
         = \<lparr>rows = 3, cols = 3,
            buf = [Val 3, NegInf, NegInf, NegInf, Val 3, NegInf, NegInf, NegInf, Val 3]\<rparr>"
    unfolding s by (rule match_matrix_9[OF ng])
  have l: "length [(0::nat, 3::nat), (3, 3), (6, 3)] = 3" by simp
  have al: "contrained_nw_align s s 4 = Inr ([aa0, aa1, aa2], [aa0, aa1, aa2])"
    unfolding contrained_nw_align_def cb Let_def mm l fill_trace_diag
      walk_back_diag[OF r0 r1 r2] by simp
  have tr: "translate s = Inr [aa0, aa1, aa2]"
    unfolding s by (rule translate_9[OF a0(1) a1(1) a2(1) ng])
  show ?thesis using al tr a0(2) a1(2) a2(2) tally_same[of "[aa0, aa1, aa2]"] by simp
qed

text \<open>Claim C10, witness: the sequence ATGGCCTAA.\<close>

theorem identical_sequences_align_without_mutations_witness:
  "contrained_nw_align ''ATGGCCTAA'' ''ATGGCCTAA'' 4 = Inr (''MA*'', ''MA*'')
   \<and> tally_alignment_mutations ''MA*'' ''MA*'' = Inr []"
proof -
  have "length ''ATGGCCTAA'' = 9" by simp
  moreover have "set ''ATGGCCTAA'' \<subseteq> {CHR ''A'', CHR ''C'', CHR ''G'', CHR ''T''}" by simp
  ultimately obtain aas where
    a: "contrained_nw_align ''ATGGCCTAA'' ''ATGGCCTAA'' 4 = Inr (aas, aas)"
       "translate ''ATGGCCTAA'' = Inr aas" "tally_alignment_mutations aas aas = Inr []"
    using identical_sequences_align_without_mutations[of "''ATGGCCTAA''"] by blast
  have "translate ''ATGGCCTAA'' = Inr ''MA*''"
    by (simp add: translate_def translation_def Let_def)
  then show ?thesis using a by simp
qed

section \<open>Verification: pinned nodes\<close>

lemma pin_two_nodes:
  "pin_node two_nodes 0 = two_nodes\<lparr>node_pin := [0, 1]\<rparr>"
  by (simp add: pin_node_def find_slot_def two_nodes_def upt_rec)

lemma ranges_2_1: "simulate_step_ranges 2 1 = [(0, 1)]"
  by (simp add: simulate_step_ranges_def worker_range_def chunk_def)

lemma ltri_ij_0: "ltri_ij 0 = (1, 0)"
  by (simp add: ltri_ij_def ltri_row.simps)

lemma worker_two_nodes:
  "simulate_step_worker (two_nodes\<lparr>node_pin := [0, 1]\<rparr>) (0, 1) = Some ([0, 0], [0, 0])"
  by (simp add: simulate_step_worker_def worker_indices_def ltri_ij_0 pair_force_def
      two_nodes_def Let_def numeral_2_eq_2)

lemma clamp_slow:
  assumes "\<bar>vx\<bar> \<le> EPSILON net"
  shows "clamp_velocity net vx 0 pin = (vx, 0)"
  using assms by (simp add: clamp_velocity_def Let_def)

text \<open>
  Claim C8.  The claim asks that every step leaves a pinned node at rest and in place.
  Node 0 of \<open>two_nodes\<close> is pinned; the only pull on it is the compaction term, which
  gives it the speed \<open>0.00005\<close>.  That is not above \<^verbatim>\<open>EPSILON_\<close>, so the loop skips the
  node before the multiplication by its pin: after the step its velocity is
  \<open>-0.00005\<close> and it has moved from \<open>0.1\<close> to \<open>0.09995\<close>.
\<close>

theorem pinned_node_drifts:
  "node_pin (pin_node two_nodes 0) ! 0 = 0
   \<and> map_option (\<lambda>net. (node_vx net ! 0, node_x net ! 0)) (simulate_step (pin_node two_nodes 0))
       = Some (- 1 / 20000, 1999 / 20000)
   \<and> node_x (pin_node two_nodes 0) ! 0 = 1 / 10"
proof -
  let ?net = "two_nodes\<lparr>node_pin := [0, 1]\<rparr>"
  have c0: "clamp_velocity ?net (- (1 / 20000)) 0 0 = (- (1 / 20000), 0)"
    by (rule clamp_slow) (simp add: two_nodes_def)
  have c1: "clamp_velocity ?net 0 0 1 = (0, 0)"
    by (rule clamp_slow) (simp add: two_nodes_def)
  have f: "node_id ?net = [0, 1]" "n_workers ?net = 1" "node_vx ?net = [0, 0]" "node_vy ?net = [0, 0]"
    "node_x ?net = [1 / 10, 0]" "node_y ?net = [0, 0]" "node_m ?net = [2, 1]" "node_pin ?net = [0, 1]"
    "parB ?net = 1" "parC ?net = 1 / 1000" "pardT ?net = 1"
    by (simp_all add: two_nodes_def)
  have i0: "iteration two_nodes = 0" by (simp add: two_nodes_def)
  have u: "[0..<2] = [0, Suc 0]" by (simp add: upt_rec numeral_2_eq_2)
  have l: "length [0::nat, 1] = 2" by simp
  have "simulate_step ?net = Some (?net\<lparr>node_vx := [- 1 / 20000, 0], node_vy := [0, 0],
           node_x := [1999 / 20000, 0], node_y := [0, 0], iteration := 1\<rparr>)"
  proof -
    have w: "those (map (simulate_step_worker ?net) [(0, 1)]) = Some [([0, 0], [0, 0])]"
      by (simp only: list.map worker_two_nodes those.simps option.case map_option_case)
    have n0: "(1::nat) \<noteq> 0" by simp
    show ?thesis
      unfolding simulate_step_def f l ranges_2_1 w Let_def option.case if_not_P[OF n0] u
      by (simp add: c0 c1 i0)
  qed
  then show ?thesis unfolding pin_two_nodes by (simp add: two_nodes_def)
qed

section \<open>Verification: the randomized MST\<close>

subsection \<open>The inner loop\<close>

lemma relax_join_c [simp]: "join_c (relax_join d p j) = join_c j"
  by (simp add: relax_join_def)

lemma relax_join_d_le: "join_d (relax_join d p j) \<le> join_d j"
  by (auto simp: relax_join_def)

lemma relax_join_d_le_key: "join_d (relax_join d p j) \<le> d"
  by (auto simp: relax_join_def)

lemma relax_step:
  assumes "join_key sequences dism (join_c (joins ! i)) p = Some d"
  shows "relax sequences dism p (i # is) (joins, min_i, min_d) =
     (let joins1 = joins[i := relax_join d p (joins ! i)]
      in if join_d (joins1 ! i) < min_d
         then relax sequences dism p is (joins1, i, join_d (joins1 ! i))
         else relax sequences dism p is (joins1, min_i, min_d))"
  using assms by (simp add: relax_join_def Let_def)

lemma relax_spec:
  assumes "b \<le> length joins"
    and "\<forall>i. a \<le> i \<and> i < b \<longrightarrow> join_key sequences dism (join_c (joins ! i)) p = Some (k i)"
  shows "\<exists>joins' mi md. relax sequences dism p [a..<b] (joins, mi0, md0) = Some (joins', mi, md)
     \<and> length joins' = length joins
     \<and> (\<forall>i < length joins. joins' ! i =
            (if a \<le> i \<and> i < b then relax_join (k i) p (joins ! i) else joins ! i))
     \<and> ((mi = mi0 \<and> md = md0) \<or> (a \<le> mi \<and> mi < b \<and> md = join_d (joins' ! mi)))
     \<and> md \<le> md0 \<and> (\<forall>i. a \<le> i \<and> i < b \<longrightarrow> md \<le> join_d (joins' ! i))"
  using assms
proof (induction "b - a" arbitrary: a joins mi0 md0)
  case 0
  then have e: "[a..<b] = []" and ba: "b \<le> a" by simp_all
  have "relax sequences dism p [a..<b] (joins, mi0, md0) = Some (joins, mi0, md0)"
    unfolding e by simp
  moreover have "\<forall>i < length joins. joins ! i =
            (if a \<le> i \<and> i < b then relax_join (k i) p (joins ! i) else joins ! i)"
    using ba by auto
  moreover have "\<forall>i. a \<le> i \<and> i < b \<longrightarrow> md0 \<le> join_d (joins ! i)"
    using ba by auto
  ultimately show ?case by blast
next
  case (Suc n)
  then have ab: "a < b" by simp
  then have upt: "[a..<b] = a # [Suc a..<b]" by (simp add: upt_conv_Cons)
  have an: "a < length joins" using ab Suc.prems(1) by simp
  have ka: "join_key sequences dism (join_c (joins ! a)) p = Some (k a)"
    using Suc.prems(2) ab by simp
  let ?j1 = "joins[a := relax_join (k a) p (joins ! a)]"
  let ?d1 = "join_d (?j1 ! a)"
  let ?mi1 = "if ?d1 < md0 then a else mi0"
  let ?md1 = "if ?d1 < md0 then ?d1 else md0"
  have step: "relax sequences dism p [a..<b] (joins, mi0, md0)
              = relax sequences dism p [Suc a..<b] (?j1, ?mi1, ?md1)"
    unfolding upt relax_step[OF ka] Let_def by simp
  have n: "n = b - Suc a" using Suc.hyps(2) by simp
  have b1: "b \<le> length ?j1" using Suc.prems(1) by simp
  have k1: "\<forall>i. Suc a \<le> i \<and> i < b \<longrightarrow> join_key sequences dism (join_c (?j1 ! i)) p = Some (k i)"
    using Suc.prems(2) by simp
  from Suc.hyps(1)[OF n b1 k1, of ?mi1 ?md1] obtain joins' mi md where
    r: "relax sequences dism p [Suc a..<b] (?j1, ?mi1, ?md1) = Some (joins', mi, md)"
       "length joins' = length ?j1"
       "\<forall>i < length ?j1. joins' ! i =
            (if Suc a \<le> i \<and> i < b then relax_join (k i) p (?j1 ! i) else ?j1 ! i)"
       "(mi = ?mi1 \<and> md = ?md1) \<or> (Suc a \<le> mi \<and> mi < b \<and> md = join_d (joins' ! mi))"
       "md \<le> ?md1" "\<forall>i. Suc a \<le> i \<and> i < b \<longrightarrow> md \<le> join_d (joins' ! i)"
    by blast
  have ja: "joins' ! a = ?j1 ! a" using r(3) an by simp
  have j1a: "?j1 ! a = relax_join (k a) p (joins ! a)" using an by simp
  have el: "\<forall>i < length joins. joins' ! i =
            (if a \<le> i \<and> i < b then relax_join (k i) p (joins ! i) else joins ! i)"
  proof (intro allI impI)
    fix i assume il: "i < length joins"
    show "joins' ! i = (if a \<le> i \<and> i < b then relax_join (k i) p (joins ! i) else joins ! i)"
    proof (cases "i = a")
      case True
      then show ?thesis using ja j1a ab by simp
    next
      case False
      then have "?j1 ! i = joins ! i" by simp
      moreover have "(Suc a \<le> i \<and> i < b) = (a \<le> i \<and> i < b)" using False by auto
      ultimately show ?thesis using r(3) il by simp
    qed
  qed
  have md1: "?md1 \<le> md0" "?md1 \<le> ?d1" by auto
  have c4: "(mi = mi0 \<and> md = md0) \<or> (a \<le> mi \<and> mi < b \<and> md = join_d (joins' ! mi))"
  proof (cases "mi = ?mi1 \<and> md = ?md1")
    case True
    show ?thesis
    proof (cases "?d1 < md0")
      case T: True
      then have "mi = a" "md = ?d1" using True by simp_all
      then show ?thesis using ja ab by simp
    next
      case F: False
      then show ?thesis using True by simp
    qed
  next
    case False
    then show ?thesis using r(4) by auto
  qed
  have c5: "md \<le> md0" using r(5) md1(1) by (rule order_trans)
  have c6: "\<forall>i. a \<le> i \<and> i < b \<longrightarrow> md \<le> join_d (joins' ! i)"
  proof (intro allI impI)
    fix i assume "a \<le> i \<and> i < b"
    then consider "i = a" | "Suc a \<le> i \<and> i < b" by fastforce
    then show "md \<le> join_d (joins' ! i)"
    proof cases
      case 1
      have "md \<le> ?d1" using r(5) md1(2) by (rule order_trans)
      then show ?thesis using 1 ja by simp
    next
      case 2
      then show ?thesis using r(6) by blast
    qed
  qed
  have "relax sequences dism p [a..<b] (joins, mi0, md0) = Some (joins', mi, md)"
    using step r(1) by simp
  moreover have "length joins' = length joins" using r(2) by simp
  ultimately show ?case using el c4 c5 c6 by blast
qed

subsection \<open>One pass of the outer loop, and an invariant rule\<close>

lemma length_relaxed [simp]: "length (relaxed sequences dism pivot joins) = length joins"
  by (simp add: relaxed_def)

lemma length_swap_at [simp]: "length (swap_at i j xs) = length xs"
  by (simp add: swap_at_def)

lemma relaxed_nth:
  "i < length joins \<Longrightarrow> relaxed sequences dism pivot joins ! i =
     (if pivot \<le> i
      then relax_join (key_of sequences dism (join_c (joins ! i)) (join_c (joins ! (pivot - 1))))
             (join_c (joins ! (pivot - 1))) (joins ! i)
      else joins ! i)"
  by (simp add: relaxed_def)

lemma relaxed_c: "i < length joins \<Longrightarrow> join_c (relaxed sequences dism pivot joins ! i) = join_c (joins ! i)"
  by (simp add: relaxed_nth)

lemma swap_at_nth:
  "i < length xs \<Longrightarrow> j < length xs \<Longrightarrow> k < length xs \<Longrightarrow>
   swap_at i j xs ! k = (if k = j then xs ! i else if k = i then xs ! j else xs ! k)"
  by (simp add: swap_at_def nth_list_update)

lemma prim_step:
  assumes "pivot < length joins"
    and "\<forall>i. pivot \<le> i \<and> i < length joins \<longrightarrow>
            join_key sequences dism (join_c (joins ! i)) (join_c (joins ! (pivot - 1))) \<noteq> None"
  shows "\<exists>mi. pivot \<le> mi \<and> mi < length joins
          \<and> (\<forall>i. pivot \<le> i \<and> i < length joins \<longrightarrow>
                 join_d (relaxed sequences dism pivot joins ! mi)
                   \<le> join_d (relaxed sequences dism pivot joins ! i))
          \<and> prim_loop sequences dism (pivot # pivots) joins
              = prim_loop sequences dism pivots (swap_at pivot mi (relaxed sequences dism pivot joins))"
proof -
  let ?p = "join_c (joins ! (pivot - 1))"
  let ?k = "\<lambda>i. key_of sequences dism (join_c (joins ! i)) ?p"
  let ?R = "relaxed sequences dism pivot joins"
  have keys: "\<forall>i. pivot \<le> i \<and> i < length joins \<longrightarrow>
            join_key sequences dism (join_c (joins ! i)) ?p = Some (?k i)"
    using assms(2) by (auto simp: key_of_def)
  from relax_spec[OF order_refl keys, of pivot "join_d (joins ! pivot)"]
  obtain joins' mi md where
    r: "relax sequences dism ?p [pivot..<length joins] (joins, pivot, join_d (joins ! pivot))
          = Some (joins', mi, md)"
       "length joins' = length joins"
       "\<forall>i < length joins. joins' ! i =
            (if pivot \<le> i \<and> i < length joins then relax_join (?k i) ?p (joins ! i) else joins ! i)"
       "(mi = pivot \<and> md = join_d (joins ! pivot))
          \<or> (pivot \<le> mi \<and> mi < length joins \<and> md = join_d (joins' ! mi))"
       "\<forall>i. pivot \<le> i \<and> i < length joins \<longrightarrow> md \<le> join_d (joins' ! i)"
    by blast
  have eq: "joins' = ?R"
  proof (rule nth_equalityI)
    show "length joins' = length ?R" using r(2) by simp
  next
    fix i assume "i < length joins'"
    then have il: "i < length joins" using r(2) by simp
    then show "joins' ! i = ?R ! i" using r(3) by (simp add: relaxed_nth)
  qed
  have mi: "pivot \<le> mi \<and> mi < length joins \<and> md = join_d (joins' ! mi)"
  proof (cases "mi = pivot \<and> md = join_d (joins ! pivot)")
    case True
    have "md \<le> join_d (joins' ! pivot)" using r(5) assms(1) by simp
    moreover have "join_d (joins' ! pivot) \<le> join_d (joins ! pivot)"
      using r(3) assms(1) by (simp add: relax_join_d_le)
    ultimately have "md = join_d (joins' ! pivot)" using True by simp
    then show ?thesis using True assms(1) by simp
  next
    case False
    then show ?thesis using r(4) by blast
  qed
  have "prim_loop sequences dism (pivot # pivots) joins
              = prim_loop sequences dism pivots (swap_at pivot mi ?R)"
    using r(1) eq by (simp add: swap_at_def)
  moreover have "\<forall>i. pivot \<le> i \<and> i < length joins \<longrightarrow> join_d (?R ! mi) \<le> join_d (?R ! i)"
    using r(5) mi eq by simp
  ultimately show ?thesis using mi by blast
qed

lemma prim_invariant:
  assumes init: "I a joins" and len: "length joins = len" and a1: "1 \<le> a"
    and keys: "\<And>pivot J i. I pivot J \<Longrightarrow> length J = len \<Longrightarrow> pivot < len \<Longrightarrow> pivot \<le> i \<Longrightarrow> i < len
            \<Longrightarrow> join_key sequences dism (join_c (J ! i)) (join_c (J ! (pivot - 1))) \<noteq> None"
    and step: "\<And>pivot J mi. I pivot J \<Longrightarrow> length J = len \<Longrightarrow> 1 \<le> pivot \<Longrightarrow> pivot < len
            \<Longrightarrow> pivot \<le> mi \<Longrightarrow> mi < len
            \<Longrightarrow> (\<forall>i. pivot \<le> i \<and> i < len \<longrightarrow>
                   join_d (relaxed sequences dism pivot J ! mi) \<le> join_d (relaxed sequences dism pivot J ! i))
            \<Longrightarrow> I (Suc pivot) (swap_at pivot mi (relaxed sequences dism pivot J))"
  shows "\<exists>J'. prim_loop sequences dism [a..<len] joins = Some J' \<and> length J' = len \<and> I (max a len) J'"
  using init len a1
proof (induction "len - a" arbitrary: a joins)
  case 0
  then have "[a..<len] = []" "max a len = a" by simp_all
  then show ?case using 0 by simp
next
  case (Suc n)
  then have al: "a < len" by simp
  then have upt: "[a..<len] = a # [Suc a..<len]" by (simp add: upt_conv_Cons)
  have k: "\<forall>i. a \<le> i \<and> i < length joins \<longrightarrow>
            join_key sequences dism (join_c (joins ! i)) (join_c (joins ! (a - 1))) \<noteq> None"
    using keys[OF Suc.prems(1,2) al] Suc.prems(2) by simp
  have al': "a < length joins" using al Suc.prems(2) by simp
  from prim_step[OF al' k, of "[Suc a..<len]"] obtain mi where
    mi: "a \<le> mi" "mi < length joins"
        "\<forall>i. a \<le> i \<and> i < length joins \<longrightarrow>
                 join_d (relaxed sequences dism a joins ! mi) \<le> join_d (relaxed sequences dism a joins ! i)"
        "prim_loop sequences dism (a # [Suc a..<len]) joins
              = prim_loop sequences dism [Suc a..<len] (swap_at a mi (relaxed sequences dism a joins))"
    by blast
  let ?J = "swap_at a mi (relaxed sequences dism a joins)"
  have I': "I (Suc a) ?J"
    using step[OF Suc.prems(1,2,3) al mi(1)] mi(2,3) Suc.prems(2) by simp
  have n: "n = len - Suc a" using Suc.hyps(2) by simp
  have lJ: "length ?J = len" using Suc.prems(2) by simp
  from Suc.hyps(1)[OF n I' lJ] obtain J' where
    "prim_loop sequences dism [Suc a..<len] ?J = Some J'" "length J' = len" "I (max (Suc a) len) J'"
    by auto
  moreover have "max (Suc a) len = max a len" using al by simp
  ultimately show ?case unfolding upt mi(4) by simp
qed

subsection \<open>Every join hangs below an attached vertex\<close>

lemma join_key_defined:
  assumes "rows dism = cols dism" and "\<forall>s \<in> set sequences. length s = L"
    and "c < max (length sequences) (rows dism)" and "p < max (length sequences) (rows dism)"
  shows "join_key sequences dism c p \<noteq> None"
proof (cases "c < rows dism \<and> p < cols dism")
  case True
  then show ?thesis by (simp add: join_key_def)
next
  case False
  then have "rows dism < length sequences" using assms(1,3,4) by auto
  then have cl: "c < length sequences" "p < length sequences" "0 < length sequences"
    using assms(3,4) by auto
  then have len: "length (sequences ! c) = L" "length (sequences ! p) = L" "length (sequences ! 0) = L"
    using assms(2) by auto
  have h1: "hamming_distance (sequences ! c) (sequences ! p) \<noteq> None"
    using hamming_distance_le[of "sequences ! c" "sequences ! p"] len by simp
  have h2: "hamming_distance (sequences ! p) (sequences ! 0) \<noteq> None"
    using hamming_distance_le[of "sequences ! p" "sequences ! 0"] len by simp
  show ?thesis using False cl h1 h2 by (auto simp: join_key_def)
qed

lemma map_swap_at:
  "i < length xs \<Longrightarrow> j < length xs \<Longrightarrow> map f (swap_at i j xs) = swap_at i j (map f xs)"
  by (simp add: swap_at_def map_update)

lemma mset_swap_at:
  "i < length xs \<Longrightarrow> j < length xs \<Longrightarrow> mset (swap_at i j xs) = mset xs"
  unfolding swap_at_def by (rule mset_swap)

lemma map_c_relaxed: "map join_c (relaxed sequences dism pivot J) = map join_c J"
  by (rule nth_equalityI) (simp_all add: relaxed_c)

lemma mset_c_step:
  assumes "pivot < length J" "mi < length J"
  shows "mset (map join_c (swap_at pivot mi (relaxed sequences dism pivot J))) = mset (map join_c J)"
proof -
  have "map join_c (swap_at pivot mi (relaxed sequences dism pivot J))
        = swap_at pivot mi (map join_c J)"
    using assms by (simp add: map_swap_at map_c_relaxed)
  then show ?thesis using assms by (simp add: mset_swap_at)
qed

lemma perm_c_bounds:
  assumes "mset (map join_c J) = mset [0..<len]"
  shows "length J = len" and "distinct (map join_c J)"
    and "\<And>i. i < len \<Longrightarrow> join_c (J ! i) < len"
    and "\<And>c. c < len \<Longrightarrow> \<exists>i < len. join_c (J ! i) = c"
proof -
  show l: "length J = len" using assms by (metis length_map length_upt size_mset minus_nat.diff_0)
  show "distinct (map join_c J)" using assms by (metis distinct_upt mset_eq_imp_distinct_iff)
  have s: "set (map join_c J) = {0..<len}" using assms by (metis mset_eq_setD set_upt)
  show "join_c (J ! i) < len" if "i < len" for i
  proof -
    have "join_c (J ! i) \<in> set (map join_c J)" using that l by simp
    then show ?thesis using s by simp
  qed
  show "\<exists>i < len. join_c (J ! i) = c" if "c < len" for c
  proof -
    have "c \<in> set (map join_c J)" using that s by simp
    then show ?thesis using l by (auto simp: in_set_conv_nth)
  qed
qed

lemma attach_inv_step:
  assumes inv: "attach_inv len pivot J" and l: "length J = len" and p1: "1 \<le> pivot" and pl: "pivot < len"
    and mi: "pivot \<le> mi" "mi < len"
  shows "attach_inv len (Suc pivot) (swap_at pivot mi (relaxed sequences dism pivot J))"
proof -
  let ?R = "relaxed sequences dism pivot J"
  let ?S = "swap_at pivot mi ?R"
  have lR: "length ?R = len" using l by simp
  have ms: "mset (map join_c ?S) = mset [0..<len]"
    using mset_c_step[of pivot J mi] inv l pl mi by (simp add: attach_inv_def)
  have S_nth: "?S ! k = (if k = mi then ?R ! pivot else if k = pivot then ?R ! mi else ?R ! k)"
    if "k < len" for k
    using swap_at_nth[of pivot ?R mi k] lR pl mi that by simp
  have R_low: "?R ! k = J ! k" if "k < pivot" for k
    using that pl l by (simp add: relaxed_nth)
  have S_low: "?S ! k = J ! k" if "k < pivot" for k
  proof -
    have "k < len" "k \<noteq> mi" "k \<noteq> pivot" using that pl mi by simp_all
    then show ?thesis using S_nth[of k] R_low[OF that] by simp
  qed
  have zero: "join_c (?S ! 0) = 0" "join_p (?S ! 0) = 0"
    using S_low[of 0] p1 inv by (simp_all add: attach_inv_def)
  have R_par: "\<exists>k. k < pivot \<and> join_c (J ! k) = join_p (?R ! i)" if hi: "pivot \<le> i" "i < len" for i
  proof (cases "join_p (?R ! i) = join_p (J ! i)")
    case True
    have "1 \<le> i" using hi p1 by simp
    then obtain k where "k < i" "k < pivot" "join_c (J ! k) = join_p (J ! i)"
      using inv hi by (auto simp: attach_inv_def)
    then show ?thesis using True by auto
  next
    case False
    then have "join_p (?R ! i) = join_c (J ! (pivot - 1))"
      using hi l by (auto simp: relaxed_nth relax_join_def split: if_splits)
    moreover have "pivot - 1 < pivot" using p1 by simp
    ultimately show ?thesis by metis
  qed
  have par: "\<exists>k. k < i \<and> k < Suc pivot \<and> join_c (?S ! k) = join_p (?S ! i)"
    if hi: "1 \<le> i" "i < len" for i
  proof (cases "i < pivot")
    case True
    obtain k where k: "k < i" "k < pivot" "join_c (J ! k) = join_p (J ! i)"
      using inv hi by (auto simp: attach_inv_def)
    then show ?thesis using S_low[of k] S_low[OF True] by auto
  next
    case False
    then have ip: "pivot \<le> i" by simp
    have "\<exists>j. pivot \<le> j \<and> j < len \<and> ?S ! i = ?R ! j"
      using S_nth[OF hi(2)] ip mi pl hi(2) by auto
    then obtain j where j: "pivot \<le> j" "j < len" "?S ! i = ?R ! j" by blast
    from R_par[OF j(1,2)] obtain k where k: "k < pivot" "join_c (J ! k) = join_p (?R ! j)" by blast
    have "k < i" "k < Suc pivot" using k(1) ip by simp_all
    moreover have "join_c (?S ! k) = join_p (?S ! i)" using S_low[OF k(1)] j(3) k(2) by simp
    ultimately show ?thesis by blast
  qed
  show ?thesis unfolding attach_inv_def using ms zero par by blast
qed

subsection \<open>The parent vector is rooted\<close>

lemma build_mst_alt:
  "build_mst input dism shuffled inferred =
     (let sequences = input @ (case inferred of None \<Rightarrow> [] | Some anc \<Rightarrow> anc);
          dim = max (length sequences) (rows dism);
          joins = init_joins (vertex_order dim shuffled)
      in case prim_loop sequences dism [1..<length joins] joins of
           None \<Rightarrow> None
         | Some J \<Rightarrow> Some (tree_of J))"
  unfolding build_mst_def init_joins_def vertex_order_def tree_of_def Let_def by (rule refl)

lemma mset_vertex_order:
  assumes "valid_shuffle dm shuffled" "0 < dm"
  shows "mset (vertex_order dm shuffled) = mset [0..<dm]"
proof (cases shuffled)
  case None
  then show ?thesis by (simp add: vertex_order_def)
next
  case (Some order)
  have "[0..<dm] = 0 # [1..<dm]" using assms(2) by (simp add: upt_conv_Cons)
  then show ?thesis using assms(1) Some by (simp add: vertex_order_def valid_shuffle_def)
qed

lemma hd_vertex_order: "0 < dm \<Longrightarrow> vertex_order dm shuffled ! 0 = 0"
  by (cases shuffled) (simp_all add: vertex_order_def)

lemma length_vertex_order:
  assumes "valid_shuffle dm shuffled" "0 < dm"
  shows "length (vertex_order dm shuffled) = dm"
  using mset_vertex_order[OF assms] by (metis length_upt size_mset minus_nat.diff_0)

lemma init_joins_simps [simp]:
  "length (init_joins order) = length order"
  "map join_c (init_joins order) = order"
  "i < length order \<Longrightarrow> join_c (init_joins order ! i) = order ! i"
  "i < length order \<Longrightarrow> join_p (init_joins order ! i) = 0"
  "i < length order \<Longrightarrow> join_d (init_joins order ! i) = MAX_D"
  by (simp_all add: init_joins_def comp_def)

lemma attach_inv_init:
  assumes "valid_shuffle dm shuffled" "0 < dm"
  shows "attach_inv dm 1 (init_joins (vertex_order dm shuffled))"
proof -
  let ?o = "vertex_order dm shuffled"
  have l: "length ?o = dm" by (rule length_vertex_order[OF assms])
  have "\<exists>k. k < i \<and> k < 1 \<and> join_c (init_joins ?o ! k) = join_p (init_joins ?o ! i)"
    if "1 \<le> i \<and> i < dm" for i
  proof -
    have "(0::nat) < i" "(0::nat) < 1" using that by simp_all
    moreover have "join_c (init_joins ?o ! 0) = join_p (init_joins ?o ! i)"
      using that l assms(2) hd_vertex_order[OF assms(2), of shuffled] by simp
    ultimately show ?thesis by blast
  qed
  then show ?thesis
    unfolding attach_inv_def
    using mset_vertex_order[OF assms] hd_vertex_order[OF assms(2), of shuffled] l assms(2)
    by simp
qed

lemma prim_loop_attached:
  assumes sq: "rows dism = cols dism" and eq: "\<forall>s \<in> set sequences. length s = L"
    and dm: "dm = max (length sequences) (rows dism)" and d0: "0 < dm"
    and sh: "valid_shuffle dm shuffled"
  shows "\<exists>J. prim_loop sequences dism [1..<dm] (init_joins (vertex_order dm shuffled)) = Some J
           \<and> length J = dm \<and> attach_inv dm (max 1 dm) J"
proof (rule prim_invariant[where I = "attach_inv dm"])
  show "attach_inv dm 1 (init_joins (vertex_order dm shuffled))"
    by (rule attach_inv_init[OF sh d0])
  show "length (init_joins (vertex_order dm shuffled)) = dm"
    using length_vertex_order[OF sh d0] by simp
  show "(1::nat) \<le> 1" by simp
next
  fix pivot J i
  assume a: "attach_inv dm pivot J" "length J = dm" "pivot < dm" "pivot \<le> i" "i < dm"
  have m: "mset (map join_c J) = mset [0..<dm]" using a(1) by (simp add: attach_inv_def)
  have "join_c (J ! i) < dm" using perm_c_bounds(3)[OF m a(5)] .
  moreover have "join_c (J ! (pivot - 1)) < dm"
    using perm_c_bounds(3)[OF m, of "pivot - 1"] a(3) by simp
  ultimately show "join_key sequences dism (join_c (J ! i)) (join_c (J ! (pivot - 1))) \<noteq> None"
    using join_key_defined[OF sq eq] dm by simp
next
  fix pivot J mi
  assume "attach_inv dm pivot J" "length J = dm" "1 \<le> pivot" "pivot < dm" "pivot \<le> mi" "mi < dm"
  then show "attach_inv dm (Suc pivot) (swap_at pivot mi (relaxed sequences dism pivot J))"
    by (rule attach_inv_step)
qed

lemma fold_update_length [simp]:
  "length (fold (\<lambda>j tree. tree[f j := g j]) xs t) = length t"
  by (induction xs arbitrary: t) simp_all

lemma fold_update_other:
  "k \<notin> f ` set xs \<Longrightarrow> fold (\<lambda>j tree. tree[f j := g j]) xs t ! k = t ! k"
  by (induction xs arbitrary: t) auto

lemma fold_update_distinct:
  assumes "distinct (map f xs)" "x \<in> set xs" "f x < length t"
  shows "fold (\<lambda>j tree. tree[f j := g j]) xs t ! (f x) = g x"
  using assms
proof (induction xs arbitrary: t)
  case Nil
  then show ?case by simp
next
  case (Cons y ys)
  show ?case
  proof (cases "x \<in> set ys")
    case True
    then show ?thesis using Cons by simp
  next
    case False
    then have xy: "x = y" using Cons.prems(2) by simp
    have "f y \<notin> f ` set ys" using Cons.prems(1) by simp
    then show ?thesis using xy Cons.prems(3) by (simp add: fold_update_other)
  qed
qed

lemma tree_of_nth:
  assumes m: "mset (map join_c J) = mset [0..<len]" and i: "i < len"
  shows "tree_of J ! (join_c (J ! i)) = join_p (J ! i)" and "length (tree_of J) = len"
proof -
  have l: "length J = len" by (rule perm_c_bounds(1)[OF m])
  show "length (tree_of J) = len" using l by (simp add: tree_of_def)
  have "J ! i \<in> set J" using i l by simp
  moreover have "join_c (J ! i) < length (replicate (length J) (0::nat))"
    using perm_c_bounds(3)[OF m i] l by simp
  ultimately show "tree_of J ! (join_c (J ! i)) = join_p (J ! i)"
    unfolding tree_of_def using perm_c_bounds(2)[OF m] by (rule fold_update_distinct[rotated])
qed

lemma position_unique:
  assumes m: "mset (map join_c J) = mset [0..<len]" and "i < len" "k < len" "join_c (J ! i) = join_c (J ! k)"
  shows "i = k"
proof -
  have "distinct (map join_c J)" "length J = len" using perm_c_bounds(1,2)[OF m] by simp_all
  then show ?thesis using assms(2-) by (metis length_map nth_eq_iff_index_eq nth_map)
qed

lemma tree_of_rooted:
  assumes inv: "attach_inv len pv J" and l0: "0 < len"
  shows "rooted (tree_of J) len (\<lambda>c. THE i. i < len \<and> join_c (J ! i) = c)"
proof -
  let ?rank = "\<lambda>c. THE i. i < len \<and> join_c (J ! i) = c"
  have m: "mset (map join_c J) = mset [0..<len]" using inv by (simp add: attach_inv_def)
  have rk: "?rank (join_c (J ! i)) = i" if "i < len" for i
    using that position_unique[OF m] by (intro the_equality) auto
  have t0: "tree_of J ! 0 = 0"
    using tree_of_nth(1)[OF m l0] inv by (simp add: attach_inv_def)
  have step: "tree_of J ! c < len \<and> ?rank (tree_of J ! c) < ?rank c" if c: "1 \<le> c \<and> c < len" for c
  proof -
    from perm_c_bounds(4)[OF m, of c] c obtain i where i: "i < len" "join_c (J ! i) = c" by auto
    have "i \<noteq> 0" using i c inv by (auto simp: attach_inv_def)
    then have "1 \<le> i \<and> i < len" using i by simp
    then obtain k where k: "k < i" "join_c (J ! k) = join_p (J ! i)"
      using inv by (auto simp: attach_inv_def)
    have kl: "k < len" using k(1) i(1) by simp
    have tc: "tree_of J ! c = join_c (J ! k)" using tree_of_nth(1)[OF m i(1)] i(2) k(2) by simp
    have "tree_of J ! c < len" unfolding tc by (rule perm_c_bounds(3)[OF m kl])
    moreover have "?rank (tree_of J ! c) < ?rank c"
      unfolding tc rk[OF kl] using rk[OF i(1)] i(2) k(1) by simp
    ultimately show ?thesis by simp
  qed
  show ?thesis unfolding rooted_def using tree_of_nth(2)[OF m l0] t0 step by blast
qed

lemma build_mst_rooted:
  assumes sq: "rows dism = cols dism"
    and eq: "\<forall>s \<in> set (input @ (case inferred of None \<Rightarrow> [] | Some anc \<Rightarrow> anc)). length s = L"
    and dm: "dm = max (length (input @ (case inferred of None \<Rightarrow> [] | Some anc \<Rightarrow> anc))) (rows dism)"
    and d0: "0 < dm" and sh: "valid_shuffle dm shuffled"
  shows "\<exists>tree rank. build_mst input dism shuffled inferred = Some tree \<and> rooted tree dm rank"
proof -
  let ?seqs = "input @ (case inferred of None \<Rightarrow> [] | Some anc \<Rightarrow> anc)"
  from prim_loop_attached[OF sq eq dm d0 sh] obtain J where
    J: "prim_loop ?seqs dism [1..<dm] (init_joins (vertex_order dm shuffled)) = Some J"
       "attach_inv dm (max 1 dm) J" by blast
  have l: "length (init_joins (vertex_order dm shuffled)) = dm"
    using length_vertex_order[OF sh d0] by simp
  have "build_mst input dism shuffled inferred = Some (tree_of J)"
    unfolding build_mst_alt Let_def dm[symmetric] l J(1) by simp
  then show ?thesis using tree_of_rooted[OF J(2) d0] by blast
qed

subsection \<open>Re-parenting and the tally of the samples\<close>

lemma real_ancestor_rooted:
  assumes r: "rooted tree len rank" and n: "1 \<le> n" "n \<le> len" and p: "p < len"
  shows "\<exists>q. real_ancestor tree n p = Some q \<and> q < n \<and> rank q \<le> rank p"
  using p
proof (induction "rank p" arbitrary: p rule: less_induct)
  case less
  show ?case
  proof (cases "n \<le> p")
    case False
    then show ?thesis by (simp add: real_ancestor.simps)
  next
    case True
    then have p1: "1 \<le> p \<and> p < len" using n less.prems by simp
    then have t: "tree ! p < len" "rank (tree ! p) < rank p" using r by (auto simp: rooted_def)
    from less.hyps[OF t(2) t(1)] obtain q where
      q: "real_ancestor tree n (tree ! p) = Some q" "q < n" "rank q \<le> rank (tree ! p)" by blast
    have "real_ancestor tree n p = real_ancestor tree n (tree ! p)"
      using True less.prems r by (subst real_ancestor.simps) (simp add: rooted_def)
    then show ?thesis using q t(2) by auto
  qed
qed

lemma word_sub_count: "(x :: u32) - of_nat a - of_nat b = x - of_nat (a + b)"
  by simp

lemma tally_sample_spec:
  assumes r: "rooted tree len rank" and n: "1 \<le> n" "n \<le> len"
    and cs: "\<forall>c \<in> set cs. 1 \<le> c \<and> c < n" "distinct cs"
    and m: "cols pct = n" "rows pct = n" "length (buf pct) = n * n"
  shows "\<exists>pct'. tally_sample tree n cs pct = Some pct' \<and> cols pct' = n \<and> rows pct' = n
           \<and> length (buf pct') = n * n
           \<and> (\<forall>c p. p < n \<longrightarrow> mat_at pct' (c, p) =
                 mat_at pct (c, p) - (if c \<in> set cs \<and> the (real_ancestor tree n (tree ! c)) = p then 1 else 0))"
  using cs m
proof (induction cs arbitrary: pct)
  case Nil
  then show ?case by simp
next
  case (Cons c cs)
  have c: "1 \<le> c" "c < n" "c \<notin> set cs" using Cons.prems(1,2) by auto
  then have cl: "1 \<le> c \<and> c < len" using n by simp
  then have tl: "tree ! c < len" using r by (simp add: rooted_def)
  from real_ancestor_rooted[OF r n tl] obtain q where
    q: "real_ancestor tree n (tree ! c) = Some q" "q < n" by blast
  let ?pct1 = "mat_put pct (c, q) (mat_at pct (c, q) - 1)"
  have m1: "cols ?pct1 = n" "rows ?pct1 = n" "length (buf ?pct1) = n * n"
    using Cons.prems(3-5) by simp_all
  have rest: "\<forall>c \<in> set cs. 1 \<le> c \<and> c < n" "distinct cs" using Cons.prems(1,2) by auto
  from Cons.IH[OF rest m1] obtain pct' where
    p': "tally_sample tree n cs ?pct1 = Some pct'" "cols pct' = n" "rows pct' = n"
        "length (buf pct') = n * n"
        "\<forall>a p. p < n \<longrightarrow> mat_at pct' (a, p) =
                 mat_at ?pct1 (a, p) - (if a \<in> set cs \<and> the (real_ancestor tree n (tree ! a)) = p then 1 else 0)"
    by blast
  have st: "tally_sample tree n (c # cs) pct = Some pct'"
    using p'(1) q(1) cl r by (simp add: rooted_def)
  have el: "mat_at pct' (a, p) =
        mat_at pct (a, p) - (if a \<in> set (c # cs) \<and> the (real_ancestor tree n (tree ! a)) = p then 1 else 0)"
    if pn: "p < n" for a p
  proof -
    have e1: "mat_at ?pct1 (a, p) = (if a = c \<and> p = q then mat_at pct (c, q) - 1 else mat_at pct (a, p))"
      by (rule mat_at_put[OF Cons.prems(3,5) c(2) q(2) pn])
    have e2: "mat_at pct' (a, p) =
                 mat_at ?pct1 (a, p) - (if a \<in> set cs \<and> the (real_ancestor tree n (tree ! a)) = p then 1 else 0)"
      using p'(5) pn by blast
    show ?thesis
    proof (cases "a = c")
      case True
      then show ?thesis unfolding e2 e1 using c(3) q(1) by auto
    next
      case False
      then show ?thesis unfolding e2 e1 by auto
    qed
  qed
  show ?case using st p'(2-4) el by blast
qed

lemma sample_rooted:
  assumes d: "rows dism = n" "cols dism = n" and i: "length input = n" "1 \<le> n"
    and eq: "\<forall>s \<in> set input. length s = L" and v: "valid_sample input do_infer L s"
  shows "\<exists>tree len rank. build_mst input dism (Some (fst s)) (if do_infer then Some (snd s) else None)
            = Some tree \<and> rooted tree len rank \<and> n \<le> len"
proof -
  let ?inf = "if do_infer then Some (snd s) else None"
  let ?seqs = "input @ (case ?inf of None \<Rightarrow> [] | Some anc \<Rightarrow> anc)"
  let ?dm = "max (length ?seqs) (rows dism)"
  have dm: "?dm = n + (if do_infer then length (snd s) else 0)" using d i by simp
  have sq: "rows dism = cols dism" using d by simp
  have eq': "\<forall>a \<in> set ?seqs. length a = L"
    using eq v by (auto simp: valid_sample_def list_all_iff)
  have d0: "0 < ?dm" using dm i by simp
  have sh: "valid_shuffle ?dm (Some (fst s))"
    using v i unfolding dm by (simp add: valid_shuffle_def valid_sample_def)
  from build_mst_rooted[OF sq eq' refl d0 sh] obtain tree rank where
    "build_mst input dism (Some (fst s)) ?inf = Some tree" "rooted tree ?dm rank" by blast
  moreover have "n \<le> ?dm" using dm by simp
  ultimately show ?thesis by blast
qed

lemma occurrences_Cons:
  "occurrences input dism b (s # samples) c p =
     (if sample_parent input dism b s c = p then 1 else 0) + occurrences input dism b samples c p"
  by (simp add: occurrences_def)

lemma run_samples_spec:
  assumes d: "rows dism = n" "cols dism = n" and i: "length input = n" "1 \<le> n"
    and eq: "\<forall>s \<in> set input. length s = L"
    and v: "\<forall>s \<in> set samples. valid_sample input do_infer L s"
    and m: "cols pct = n" "rows pct = n" "length (buf pct) = n * n"
  shows "\<exists>pct'. run_samples input dism do_infer samples pct = Some pct' \<and> cols pct' = n
           \<and> rows pct' = n \<and> length (buf pct') = n * n
           \<and> (\<forall>c p. p < n \<longrightarrow> mat_at pct' (c, p) =
                 mat_at pct (c, p) - (if 1 \<le> c \<and> c < n
                                      then of_nat (occurrences input dism do_infer samples c p) else 0))"
  using v m
proof (induction samples arbitrary: pct)
  case Nil
  then show ?case by (simp add: occurrences_def)
next
  case (Cons s samples)
  have vs: "valid_sample input do_infer L s" using Cons.prems(1) by simp
  from sample_rooted[OF d i eq vs] obtain tree len rank where
    t: "build_mst input dism (Some (fst s)) (if do_infer then Some (snd s) else None) = Some tree"
       "rooted tree len rank" "n \<le> len" by blast
  have st: "sample_tree input dism do_infer s = tree" using t(1) by (simp add: sample_tree_def)
  have cs: "\<forall>c \<in> set [1..<n]. 1 \<le> c \<and> c < n" "distinct [1..<n]" by simp_all
  from tally_sample_spec[OF t(2) i(2) t(3) cs Cons.prems(2-4)] obtain pct1 where
    p1: "tally_sample tree n [1..<n] pct = Some pct1" "cols pct1 = n" "rows pct1 = n"
        "length (buf pct1) = n * n"
        "\<forall>c p. p < n \<longrightarrow> mat_at pct1 (c, p) =
                 mat_at pct (c, p) - (if c \<in> set [1..<n] \<and> the (real_ancestor tree n (tree ! c)) = p then 1 else 0)"
    by blast
  have rest: "\<forall>s \<in> set samples. valid_sample input do_infer L s" using Cons.prems(1) by simp
  from Cons.IH[OF rest p1(2-4)] obtain pct' where
    p': "run_samples input dism do_infer samples pct1 = Some pct'" "cols pct' = n" "rows pct' = n"
        "length (buf pct') = n * n"
        "\<forall>c p. p < n \<longrightarrow> mat_at pct' (c, p) =
                 mat_at pct1 (c, p) - (if 1 \<le> c \<and> c < n
                                      then of_nat (occurrences input dism do_infer samples c p) else 0)"
    by blast
  have run: "run_samples input dism do_infer (s # samples) pct = Some pct'"
    using t(1) p1(1) p'(1) i(1) by simp
  have el: "mat_at pct' (c, p) =
                 mat_at pct (c, p) - (if 1 \<le> c \<and> c < n
                                      then of_nat (occurrences input dism do_infer (s # samples) c p) else 0)"
    if pn: "p < n" for c p
  proof -
    have e1: "mat_at pct1 (c, p) =
                 mat_at pct (c, p) - (if c \<in> set [1..<n] \<and> the (real_ancestor tree n (tree ! c)) = p then 1 else 0)"
      using p1(5) pn by blast
    have e2: "mat_at pct' (c, p) =
                 mat_at pct1 (c, p) - (if 1 \<le> c \<and> c < n
                                      then of_nat (occurrences input dism do_infer samples c p) else 0)"
      using p'(5) pn by blast
    have sp: "sample_parent input dism do_infer s c = the (real_ancestor tree n (tree ! c))"
      by (simp add: sample_parent_def st i(1))
    show ?thesis
    proof (cases "1 \<le> c \<and> c < n")
      case True
      then have mem: "c \<in> set [1..<n]" by simp
      show ?thesis
      proof (cases "the (real_ancestor tree n (tree ! c)) = p")
        case T: True
        then show ?thesis unfolding e2 e1 occurrences_Cons sp using True mem by simp
      next
        case F: False
        then show ?thesis unfolding e2 e1 occurrences_Cons sp using True mem by simp
      qed
    next
      case False
      then have nm: "c \<notin> set [1..<n]" by auto
      have "mat_at pct1 (c, p) = mat_at pct (c, p)" unfolding e1 using nm by auto
      moreover have "mat_at pct' (c, p) = mat_at pct1 (c, p)" unfolding e2 using False by auto
      ultimately show ?thesis using False by auto
    qed
  qed
  show ?case using run p'(2-4) el by blast
qed

section \<open>Verification: the consensus tree\<close>

lemma MAX_D_minus1: "MAX_D = - 1"
  by (simp add: MAX_D_def)

lemma count_decode:
  assumes "k < 2 ^ 32"
  shows "unat (MAX_D - ((MAX_D - of_nat k) AND MAX_D)) = k"
proof -
  have "MAX_D - ((MAX_D - of_nat k) AND MAX_D) = (of_nat k :: u32)"
    by (simp add: MAX_D_minus1)
  moreover have "unat (of_nat k :: u32) = k" using assms by (simp add: unat_of_nat)
  ultimately show ?thesis by simp
qed


lemma consensus_run:
  assumes ne: "input \<noteq> []" and eq: "\<forall>s \<in> set input. length s = L"
    and v: "\<forall>s \<in> set samples. valid_sample input do_infer L s"
  shows "\<exists>dism pct tree rank. make_distance_matrix input = Some dism
      \<and> rows dism = length input \<and> cols dism = length input
      \<and> (\<forall>i j. i < length input \<longrightarrow> j < length input \<longrightarrow> mat_at dism (i, j) =
                  push_bit 16 (of_nat (mismatches (input ! i) (input ! j)))
                  OR of_nat (mismatches (input ! 0) (input ! j)))
      \<and> run_samples input dism do_infer samples (Matrix_init (length input) (length input) MAX_D) = Some pct
      \<and> rows pct = length input \<and> cols pct = length input
      \<and> (\<forall>c p. 1 \<le> c \<and> c < length input \<and> p < length input \<longrightarrow>
             mat_at pct (c, p) = MAX_D - of_nat (occurrences input dism do_infer samples c p))
      \<and> build_mst [] pct None None = Some tree \<and> rooted tree (length input) rank
      \<and> build_consensus_mst input samples do_infer
           = Some (map (consensus_edge dism pct (length samples) tree) [1..<length input])"
proof -
  let ?n = "length input"
  have n1: "1 \<le> ?n" using ne by (cases input) simp_all
  from make_distance_matrix_equal_length[OF eq refl] obtain dism where
    d: "make_distance_matrix input = Some dism" "rows dism = ?n" "cols dism = ?n"
       "\<forall>i j. i < ?n \<longrightarrow> j < ?n \<longrightarrow> mat_at dism (i, j) =
                  push_bit 16 (of_nat (mismatches (input ! i) (input ! j)))
                  OR of_nat (mismatches (input ! 0) (input ! j))"
    by blast
  have sq: "rows dism = cols dism" using d by simp
  have eq0: "\<forall>s \<in> set (input @ (case None of None \<Rightarrow> [] | Some anc \<Rightarrow> anc)). length s = L"
    using eq by simp
  have dm0: "?n = max (length (input @ (case None of None \<Rightarrow> [] | Some anc \<Rightarrow> anc))) (rows dism)"
    using d by simp
  have n0: "0 < ?n" using ne by simp
  have vn: "valid_shuffle ?n None" by (simp add: valid_shuffle_def)
  from build_mst_rooted[OF sq eq0 dm0 n0 vn] obtain t0 where
    t0: "build_mst input dism None None = Some t0" by blast
  let ?P = "Matrix_init ?n ?n MAX_D"
  have mP: "cols ?P = ?n" "rows ?P = ?n" "length (buf ?P) = ?n * ?n" by simp_all
  from run_samples_spec[OF d(2,3) refl n1 eq v mP] obtain pct where
    p: "run_samples input dism do_infer samples ?P = Some pct" "cols pct = ?n" "rows pct = ?n"
       "\<forall>c p. p < ?n \<longrightarrow> mat_at pct (c, p) =
                 mat_at ?P (c, p) - (if 1 \<le> c \<and> c < ?n
                                      then of_nat (occurrences input dism do_infer samples c p) else 0)"
    by blast
  have pe: "mat_at pct (c, p) = MAX_D - of_nat (occurrences input dism do_infer samples c p)"
    if "1 \<le> c \<and> c < ?n \<and> p < ?n" for c p
    using p(4) that by (simp add: mat_at_init)
  have sqp: "rows pct = cols pct" using p by simp
  have eqp: "\<forall>s \<in> set ([] @ (case None of None \<Rightarrow> [] | Some anc \<Rightarrow> anc)). length s = L" by simp
  have dmp: "?n = max (length ([] @ (case None of None \<Rightarrow> [] | Some anc \<Rightarrow> anc))) (rows pct)"
    using p by simp
  from build_mst_rooted[OF sqp eqp dmp n0 vn] obtain tree rank where
    t: "build_mst [] pct None None = Some tree" "rooted tree ?n rank" by blast
  have "build_consensus_mst input samples do_infer
           = Some (map (consensus_edge dism pct (length samples) tree) [1..<?n])"
    by (simp add: build_consensus_mst_def d(1) t0 p(1) t(1))
  then show ?thesis using d p(1-3) pe t by blast
qed



subsection \<open>The final tree over the counts of one sample\<close>

lemma key_of_table:
  "c < rows dism \<Longrightarrow> p < cols dism \<Longrightarrow> key_of sequences dism c p = mat_at dism (c, p)"
  by (simp add: key_of_def join_key_def)

lemma position_nonzero:
  assumes m: "mset (map join_c J) = mset [0..<len]" and z: "join_c (J ! 0) = 0"
    and i: "1 \<le> i" "i < len"
  shows "1 \<le> join_c (J ! i)"
proof (rule ccontr)
  assume "\<not> 1 \<le> join_c (J ! i)"
  then have e: "join_c (J ! i) = join_c (J ! 0)" using z by simp
  have "0 < len" using i by simp
  then have "i = 0" using e by (rule position_unique[OF m i(2)])
  then show False using i by simp
qed

lemma exists_attachable:
  assumes m: "mset (map join_c J) = mset [0..<n]" and z: "join_c (J ! 0) = 0"
    and pv: "1 \<le> pivot" "pivot < n"
    and par: "\<forall>c. 1 \<le> c \<and> c < n \<longrightarrow> par c < n \<and> rank (par c) < (rank c :: nat)"
  shows "\<exists>i. pivot \<le> i \<and> i < n \<and> (\<exists>k. k < pivot \<and> join_c (J ! k) = par (join_c (J ! i)))"
proof -
  let ?U = "\<lambda>i. pivot \<le> i \<and> i < n"
  have "?U pivot" using pv by simp
  from ex_has_least_nat[of ?U pivot "\<lambda>i. rank (join_c (J ! i))", OF this]
  obtain i where i: "?U i" "\<forall>j. ?U j \<longrightarrow> rank (join_c (J ! i)) \<le> rank (join_c (J ! j))" by blast
  have i1: "1 \<le> i" "i < n" using i(1) pv by simp_all
  have c1: "1 \<le> join_c (J ! i)" by (rule position_nonzero[OF m z i1])
  have cn: "join_c (J ! i) < n" by (rule perm_c_bounds(3)[OF m i1(2)])
  have p: "par (join_c (J ! i)) < n" "rank (par (join_c (J ! i))) < rank (join_c (J ! i))"
    using par c1 cn by simp_all
  from perm_c_bounds(4)[OF m p(1)] obtain k where k: "k < n" "join_c (J ! k) = par (join_c (J ! i))"
    by blast
  have "k < pivot"
  proof (rule ccontr)
    assume "\<not> k < pivot"
    then have "?U k" using k(1) by simp
    then have "rank (join_c (J ! i)) \<le> rank (join_c (J ! k))" using i(2) by blast
    then show False using p(2) k(2) by simp
  qed
  then show ?thesis using i(1) k(2) by blast
qed

lemma MAX_D_greatest: "\<not> MAX_D < (x :: u32)"
proof -
  have "x \<le> - 1" by (rule word_n1_ge)
  then show ?thesis unfolding MAX_D_minus1 by (simp only: not_less)
qed

lemma MAX_D_pred_less: "MAX_D - 1 < MAX_D"
  by (simp add: MAX_D_def)

lemma cons_inv_step:
  assumes inv: "cons_inv par n pivot J" and l: "length J = n" and p1: "1 \<le> pivot" and pl: "pivot < n"
    and mi: "pivot \<le> mi" "mi < n"
    and least: "\<forall>i. pivot \<le> i \<and> i < n \<longrightarrow>
                   join_d (relaxed sequences pct pivot J ! mi) \<le> join_d (relaxed sequences pct pivot J ! i)"
    and pd: "rows pct = n" "cols pct = n"
    and pe: "\<forall>c p. 1 \<le> c \<and> c < n \<and> p < n \<longrightarrow>
               mat_at pct (c, p) = (if par c = p then MAX_D - 1 else MAX_D)"
    and par: "\<forall>c. 1 \<le> c \<and> c < n \<longrightarrow> par c < n \<and> rank (par c) < (rank c :: nat)"
  shows "cons_inv par n (Suc pivot) (swap_at pivot mi (relaxed sequences pct pivot J))"
proof -
  let ?R = "relaxed sequences pct pivot J"
  let ?S = "swap_at pivot mi ?R"
  let ?P = "join_c (J ! (pivot - 1))"
  have m: "mset (map join_c J) = mset [0..<n]" and z: "join_c (J ! 0) = 0" "join_p (J ! 0) = 0"
    using inv by (simp_all add: cons_inv_def)
  have old: "if \<exists>k. Suc k < pivot \<and> join_c (J ! k) = par (join_c (J ! i))
             then join_d (J ! i) = MAX_D - 1 \<and> join_p (J ! i) = par (join_c (J ! i))
             else join_d (J ! i) = MAX_D" if "pivot \<le> i" "i < n" for i
    using inv that unfolding cons_inv_def by blast
  have att: "join_p (J ! i) = par (join_c (J ! i))" if "1 \<le> i" "i < pivot" for i
    using inv that pl unfolding cons_inv_def by simp
  have lR: "length ?R = n" using l by simp
  have ms: "mset (map join_c ?S) = mset [0..<n]"
    using mset_c_step[of pivot J mi] m l pl mi by simp
  have S_nth: "?S ! k = (if k = mi then ?R ! pivot else if k = pivot then ?R ! mi else ?R ! k)"
    if "k < n" for k
    using swap_at_nth[of pivot ?R mi k] lR pl mi that by simp
  have R_low: "?R ! k = J ! k" if "k < pivot" for k
    using that pl l by (simp add: relaxed_nth)
  have S_low: "?S ! k = J ! k" if "k < pivot" for k
  proof -
    have "k < n" "k \<noteq> mi" "k \<noteq> pivot" using that pl mi by simp_all
    then show ?thesis using S_nth[of k] R_low[OF that] by simp
  qed
  have zero: "join_c (?S ! 0) = 0" "join_p (?S ! 0) = 0"
    using S_low[of 0] p1 z by simp_all
  have Pn: "?P < n" using perm_c_bounds(3)[OF m, of "pivot - 1"] pl by simp
  text \<open>the waiting joins after the relaxation\<close>
  have RC: "join_c (?R ! i) = join_c (J ! i)
      \<and> (if \<exists>k. k < pivot \<and> join_c (J ! k) = par (join_c (J ! i))
          then join_d (?R ! i) = MAX_D - 1 \<and> join_p (?R ! i) = par (join_c (J ! i))
          else join_d (?R ! i) = MAX_D)" if hi: "pivot \<le> i" "i < n" for i
  proof -
    let ?c = "join_c (J ! i)"
    have i1: "1 \<le> i" using hi p1 by simp
    have c1: "1 \<le> ?c" by (rule position_nonzero[OF m z(1) i1 hi(2)])
    have cn: "?c < n" by (rule perm_c_bounds(3)[OF m hi(2)])
    have key: "key_of sequences pct ?c ?P = (if par ?c = ?P then MAX_D - 1 else MAX_D)"
      using key_of_table[of ?c pct ?P sequences] pd cn Pn pe c1 by simp
    have Ri: "?R ! i = relax_join (key_of sequences pct ?c ?P) ?P (J ! i)"
      using hi l by (simp add: relaxed_nth)
    have ex_iff: "(\<exists>k. k < pivot \<and> join_c (J ! k) = par ?c)
        = ((\<exists>k. Suc k < pivot \<and> join_c (J ! k) = par ?c) \<or> par ?c = ?P)"
    proof
      assume "\<exists>k. k < pivot \<and> join_c (J ! k) = par ?c"
      then obtain k where k: "k < pivot" "join_c (J ! k) = par ?c" by blast
      show "(\<exists>k. Suc k < pivot \<and> join_c (J ! k) = par ?c) \<or> par ?c = ?P"
      proof (cases "Suc k < pivot")
        case True
        then show ?thesis using k(2) by blast
      next
        case False
        then have "k = pivot - 1" using k(1) by simp
        then show ?thesis using k(2) by simp
      qed
    next
      assume "(\<exists>k. Suc k < pivot \<and> join_c (J ! k) = par ?c) \<or> par ?c = ?P"
      then show "\<exists>k. k < pivot \<and> join_c (J ! k) = par ?c"
      proof
        assume "\<exists>k. Suc k < pivot \<and> join_c (J ! k) = par ?c"
        then obtain k where "Suc k < pivot" "join_c (J ! k) = par ?c" by blast
        then have "k < pivot \<and> join_c (J ! k) = par ?c" by simp
        then show ?thesis by blast
      next
        assume "par ?c = ?P"
        moreover have "pivot - 1 < pivot" using p1 by simp
        ultimately show ?thesis by metis
      qed
    qed
    show ?thesis
    proof (cases "par ?c = ?P")
      case True
      then have k: "key_of sequences pct ?c ?P = MAX_D - 1" using key by simp
      have ex: "\<exists>k. k < pivot \<and> join_c (J ! k) = par ?c" using ex_iff True by simp
      show ?thesis
      proof (cases "\<exists>k. Suc k < pivot \<and> join_c (J ! k) = par ?c")
        case T: True
        then have "join_d (J ! i) = MAX_D - 1" "join_p (J ! i) = par ?c" using old[OF hi] by simp_all
        then show ?thesis using ex unfolding Ri k by (simp add: relax_join_def)
      next
        case F: False
        then have "join_d (J ! i) = MAX_D" using old[OF hi] by simp
        then show ?thesis using ex True unfolding Ri k by (simp add: relax_join_def MAX_D_pred_less)
      qed
    next
      case False
      then have k: "key_of sequences pct ?c ?P = MAX_D" using key by simp
      have same: "?R ! i = J ! i" unfolding Ri k by (simp add: relax_join_def MAX_D_greatest)
      have "(\<exists>k. k < pivot \<and> join_c (J ! k) = par ?c) = (\<exists>k. Suc k < pivot \<and> join_c (J ! k) = par ?c)"
        using ex_iff False by simp
      then show ?thesis unfolding same using old[OF hi] by simp
    qed
  qed
  text \<open>the chosen join has its sample parent attached\<close>
  from exists_attachable[OF m z(1) p1 pl par] obtain i0 where
    i0: "pivot \<le> i0" "i0 < n" "\<exists>k. k < pivot \<and> join_c (J ! k) = par (join_c (J ! i0))" by blast
  have "join_d (?R ! i0) = MAX_D - 1" using RC[OF i0(1,2)] i0(3) by simp
  then have "join_d (?R ! mi) \<le> MAX_D - 1" using least i0(1,2) by metis
  then have dmi: "join_d (?R ! mi) \<noteq> MAX_D" using MAX_D_pred_less by auto
  have mi_par: "join_p (?R ! mi) = par (join_c (?R ! mi))"
  proof (cases "\<exists>k. k < pivot \<and> join_c (J ! k) = par (join_c (J ! mi))")
    case True
    then show ?thesis using RC[OF mi] by simp
  next
    case False
    then show ?thesis using RC[OF mi] dmi by simp
  qed
  have a1: "join_p (?S ! i) = par (join_c (?S ! i))" if hi: "1 \<le> i" "i < Suc pivot" "i < n" for i
  proof (cases "i < pivot")
    case True
    then show ?thesis using S_low[OF True] att[OF hi(1) True] by simp
  next
    case False
    then have ip: "i = pivot" using hi(2) by simp
    have "?S ! pivot = ?R ! mi" using S_nth[of pivot] pl by (cases "pivot = mi") simp_all
    then show ?thesis unfolding ip using mi_par by simp
  qed
  have a2: "if \<exists>k. Suc k < Suc pivot \<and> join_c (?S ! k) = par (join_c (?S ! i))
             then join_d (?S ! i) = MAX_D - 1 \<and> join_p (?S ! i) = par (join_c (?S ! i))
             else join_d (?S ! i) = MAX_D" if hi: "Suc pivot \<le> i" "i < n" for i
  proof -
    have "\<exists>j. pivot \<le> j \<and> j < n \<and> ?S ! i = ?R ! j"
    proof (cases "i = mi")
      case True
      then have "?S ! i = ?R ! pivot" using S_nth[OF hi(2)] by simp
      then show ?thesis using pl by blast
    next
      case False
      then have "?S ! i = ?R ! i" using S_nth[OF hi(2)] hi(1) by simp
      moreover have "pivot \<le> i" using hi(1) by simp
      ultimately show ?thesis using hi(2) by blast
    qed
    then obtain j where j: "pivot \<le> j" "j < n" "?S ! i = ?R ! j" by blast
    have cj: "join_c (?R ! j) = join_c (J ! j)" using RC[OF j(1,2)] by simp
    have ex: "(\<exists>k. Suc k < Suc pivot \<and> join_c (?S ! k) = par (join_c (J ! j)))
              = (\<exists>k. k < pivot \<and> join_c (J ! k) = par (join_c (J ! j)))"
      using S_low by auto
    show ?thesis unfolding j(3) cj ex using RC[OF j(1,2)] by simp
  qed
  show ?thesis unfolding cons_inv_def using ms zero a1 a2 by blast
qed

lemma cons_inv_init:
  assumes "0 < n"
  shows "cons_inv par n 1 (init_joins [0..<n])"
proof -
  have "\<not> (\<exists>k. Suc k < 1 \<and> join_c (init_joins [0..<n] ! k) = x)" for x by simp
  then show ?thesis unfolding cons_inv_def using assms by simp
qed

lemma build_mst_on_counts:
  assumes n0: "0 < n" and pd: "rows pct = n" "cols pct = n"
    and pe: "\<forall>c p. 1 \<le> c \<and> c < n \<and> p < n \<longrightarrow>
               mat_at pct (c, p) = (if par c = p then MAX_D - 1 else MAX_D)"
    and par: "\<forall>c. 1 \<le> c \<and> c < n \<longrightarrow> par c < n \<and> rank (par c) < (rank c :: nat)"
  shows "\<exists>tree. build_mst [] pct None None = Some tree \<and> length tree = n \<and> tree ! 0 = 0
           \<and> (\<forall>c. 1 \<le> c \<and> c < n \<longrightarrow> tree ! c = par c)"
proof -
  have sq: "rows pct = cols pct" using pd by simp
  have "\<exists>J. prim_loop [] pct [1..<n] (init_joins [0..<n]) = Some J \<and> length J = n
            \<and> cons_inv par n (max 1 n) J"
  proof (rule prim_invariant[where I = "cons_inv par n"])
    show "cons_inv par n 1 (init_joins [0..<n])" by (rule cons_inv_init[OF n0])
    show "length (init_joins [0..<n]) = n" by simp
    show "(1::nat) \<le> 1" by simp
  next
    fix pivot J i
    assume a: "cons_inv par n pivot J" "length J = n" "pivot < n" "pivot \<le> i" "i < n"
    have m: "mset (map join_c J) = mset [0..<n]" using a(1) by (simp add: cons_inv_def)
    have "join_c (J ! i) < n" using perm_c_bounds(3)[OF m a(5)] .
    moreover have "join_c (J ! (pivot - 1)) < n"
      using perm_c_bounds(3)[OF m, of "pivot - 1"] a(3) by simp
    ultimately show "join_key [] pct (join_c (J ! i)) (join_c (J ! (pivot - 1))) \<noteq> None"
      using pd by (simp add: join_key_def)
  next
    fix pivot J mi
    assume "cons_inv par n pivot J" "length J = n" "1 \<le> pivot" "pivot < n" "pivot \<le> mi" "mi < n"
      "\<forall>i. pivot \<le> i \<and> i < n \<longrightarrow>
         join_d (relaxed [] pct pivot J ! mi) \<le> join_d (relaxed [] pct pivot J ! i)"
    then show "cons_inv par n (Suc pivot) (swap_at pivot mi (relaxed [] pct pivot J))"
      using pd pe par by (rule cons_inv_step)
  qed
  then obtain J where J: "prim_loop [] pct [1..<n] (init_joins [0..<n]) = Some J" "length J = n"
      "cons_inv par n (max 1 n) J" by blast
  have m: "mset (map join_c J) = mset [0..<n]" and z: "join_c (J ! 0) = 0" "join_p (J ! 0) = 0"
    using J(3) by (simp_all add: cons_inv_def)
  have b: "build_mst [] pct None None = Some (tree_of J)"
    unfolding build_mst_alt Let_def using J(1) pd by (simp add: vertex_order_def)
  have t0: "tree_of J ! 0 = 0" using tree_of_nth(1)[OF m n0] z by simp
  have tc: "tree_of J ! c = par c" if c: "1 \<le> c \<and> c < n" for c
  proof -
    from perm_c_bounds(4)[OF m, of c] c obtain i where i: "i < n" "join_c (J ! i) = c" by auto
    have "i \<noteq> 0"
    proof
      assume "i = 0"
      then have "c = 0" using i(2) z(1) by simp
      then show False using c by simp
    qed
    then have "1 \<le> i \<and> i < max 1 n \<and> i < n" using i by simp
    then have "join_p (J ! i) = par (join_c (J ! i))" using J(3) unfolding cons_inv_def by blast
    then show ?thesis using tree_of_nth(1)[OF m i(1)] i(2) by simp
  qed
  show ?thesis using b tree_of_nth(2)[OF m n0] t0 tc by blast
qed

lemma occurrences_single:
  "occurrences input dism b [s] c p = (if sample_parent input dism b s c = p then 1 else 0)"
  by (simp add: occurrences_def)

lemma consensus_single:
  assumes ne: "input \<noteq> []" and eq: "\<forall>a \<in> set input. length a = L"
    and v: "valid_sample input do_infer L s"
  shows "\<exists>dism tree. make_distance_matrix input = Some dism
      \<and> (\<forall>i j. i < length input \<longrightarrow> j < length input \<longrightarrow> mat_at dism (i, j) =
                  push_bit 16 (of_nat (mismatches (input ! i) (input ! j)))
                  OR of_nat (mismatches (input ! 0) (input ! j)))
      \<and> build_mst input dism (Some (fst s)) (if do_infer then Some (snd s) else None) = Some tree
      \<and> (\<forall>c. 1 \<le> c \<and> c < length input \<longrightarrow>
             (\<exists>q. real_ancestor tree (length input) (tree ! c) = Some q \<and> q < length input))
      \<and> build_consensus_mst input [s] do_infer
          = Some (map (\<lambda>c. \<lparr>parent = the (real_ancestor tree (length input) (tree ! c)), child = c,
                             distance = drop_bit 16 (mat_at dism
                                (c, the (real_ancestor tree (length input) (tree ! c)))),
                             weight = Some 1\<rparr>) [1..<length input])"
proof -
  let ?n = "length input"
  have n0: "0 < ?n" using ne by simp
  have n1: "1 \<le> ?n" using ne by (cases input) simp_all
  have vs: "\<forall>x \<in> set [s]. valid_sample input do_infer L x" using v by simp
  from consensus_run[OF ne eq vs] obtain dism pct treef rankf where
    r: "make_distance_matrix input = Some dism" "rows dism = ?n" "cols dism = ?n"
       "\<forall>i j. i < ?n \<longrightarrow> j < ?n \<longrightarrow> mat_at dism (i, j) =
                  push_bit 16 (of_nat (mismatches (input ! i) (input ! j)))
                  OR of_nat (mismatches (input ! 0) (input ! j))"
       "rows pct = ?n" "cols pct = ?n"
       "\<forall>c p. 1 \<le> c \<and> c < ?n \<and> p < ?n \<longrightarrow>
             mat_at pct (c, p) = MAX_D - of_nat (occurrences input dism do_infer [s] c p)"
       "build_mst [] pct None None = Some treef"
       "build_consensus_mst input [s] do_infer
           = Some (map (consensus_edge dism pct (length [s]) treef) [1..<?n])"
    by blast
  from sample_rooted[OF r(2,3) refl n1 eq v] obtain tree len rank where
    t: "build_mst input dism (Some (fst s)) (if do_infer then Some (snd s) else None) = Some tree"
       "rooted tree len rank" "?n \<le> len" by blast
  let ?par = "\<lambda>c. the (real_ancestor tree ?n (tree ! c))"
  have st: "sample_tree input dism do_infer s = tree" using t(1) by (simp add: sample_tree_def)
  have sp: "sample_parent input dism do_infer s c = ?par c" for c
    by (simp add: sample_parent_def st)
  have anc: "\<exists>q. real_ancestor tree ?n (tree ! c) = Some q \<and> q < ?n \<and> rank q < rank c"
    if c: "1 \<le> c \<and> c < ?n" for c
  proof -
    have cl: "1 \<le> c \<and> c < len" using c t(3) by simp
    then have tl: "tree ! c < len" "rank (tree ! c) < rank c" using t(2) by (simp_all add: rooted_def)
    from real_ancestor_rooted[OF t(2) n1 t(3) tl(1)] obtain q where
      "real_ancestor tree ?n (tree ! c) = Some q" "q < ?n" "rank q \<le> rank (tree ! c)" by blast
    then show ?thesis using tl(2) by auto
  qed
  have par: "\<forall>c. 1 \<le> c \<and> c < ?n \<longrightarrow> ?par c < ?n \<and> rank (?par c) < rank c"
    using anc by fastforce
  have pe: "\<forall>c p. 1 \<le> c \<and> c < ?n \<and> p < ?n \<longrightarrow>
               mat_at pct (c, p) = (if ?par c = p then MAX_D - 1 else MAX_D)"
    using r(7) by (simp add: occurrences_single sp)
  from build_mst_on_counts[OF n0 r(5,6) pe par] obtain tf where
    tf: "build_mst [] pct None None = Some tf" "\<forall>c. 1 \<le> c \<and> c < ?n \<longrightarrow> tf ! c = ?par c" by blast
  have tfe: "treef = tf" using tf(1) r(8) by simp
  have edge: "consensus_edge dism pct (length [s]) treef c
      = \<lparr>parent = ?par c, child = c, distance = drop_bit 16 (mat_at dism (c, ?par c)), weight = Some 1\<rparr>"
    if c: "c \<in> set [1..<?n]" for c
  proof -
    have c': "1 \<le> c \<and> c < ?n" using c by simp
    have tc: "treef ! c = ?par c" using tf(2) tfe c' by simp
    have pn: "?par c < ?n" using par c' by simp
    have pc: "mat_at pct (c, ?par c) = MAX_D - of_nat 1" using pe c' pn by simp
    have k: "unat (MAX_D - ((MAX_D - of_nat 1) AND MAX_D)) = 1"
      by (rule count_decode) simp
    show ?thesis unfolding consensus_edge_def Let_def tc pc k by simp
  qed
  have "map (consensus_edge dism pct (length [s]) treef) [1..<?n]
      = map (\<lambda>c. \<lparr>parent = ?par c, child = c, distance = drop_bit 16 (mat_at dism (c, ?par c)),
                    weight = Some 1\<rparr>) [1..<?n]"
    using edge by (rule map_cong[OF refl])
  then have res: "build_consensus_mst input [s] do_infer
      = Some (map (\<lambda>c. \<lparr>parent = ?par c, child = c, distance = drop_bit 16 (mat_at dism (c, ?par c)),
                    weight = Some 1\<rparr>) [1..<?n])"
    using r(9) by simp
  have anc': "\<forall>c. 1 \<le> c \<and> c < ?n \<longrightarrow> (\<exists>q. real_ancestor tree ?n (tree ! c) = Some q \<and> q < ?n)"
    using anc by blast
  show ?thesis using r(1,4) t(1) anc' res by blast
qed





section \<open>Verification: the star scenario\<close>

lemma mismatches_Cons [simp]:
  "mismatches (x # a) (y # b) = (if x \<noteq> y then 1 else 0) + mismatches a b"
  by (simp add: mismatches_def)

lemma mismatches_eq_0:
  "length a = length b \<Longrightarrow> (mismatches a b = 0) = (a = b)"
proof (induction a b rule: list_induct2)
  case Nil
  show ?case by (simp add: mismatches_def)
next
  case (Cons x xs y ys)
  then show ?case by simp
qed

lemma mismatches_triangle:
  "length a = length b \<Longrightarrow> length b = length c \<Longrightarrow>
   mismatches a c \<le> mismatches a b + mismatches b c"
proof (induction a b c rule: list_induct3)
  case Nil
  show ?case by (simp add: mismatches_def)
next
  case (Cons x xs y ys z zs)
  then show ?case by auto
qed

lemma star_inv_step:
  assumes inv: "star_inv dism n pivot J" and l: "length J = n" and p1: "1 \<le> pivot" and pl: "pivot < n"
    and mi: "pivot \<le> mi" "mi < n"
    and dd: "rows dism = n" "cols dism = n"
    and h1: "\<forall>c p. 1 \<le> c \<and> c < n \<and> p < n \<and> p \<noteq> c \<longrightarrow> \<not> mat_at dism (c, p) < mat_at dism (c, 0)"
    and h2: "\<forall>c. 1 \<le> c \<and> c < n \<longrightarrow> mat_at dism (c, 0) < MAX_D"
  shows "star_inv dism n (Suc pivot) (swap_at pivot mi (relaxed sequences dism pivot J))"
proof -
  let ?R = "relaxed sequences dism pivot J"
  let ?S = "swap_at pivot mi ?R"
  let ?P = "join_c (J ! (pivot - 1))"
  have m: "mset (map join_c J) = mset [0..<n]" and z: "join_c (J ! 0) = 0" "join_p (J ! 0) = 0"
    using inv by (simp_all add: star_inv_def)
  have p0: "join_p (J ! i) = 0" if "1 \<le> i" "i < n" for i
    using inv that unfolding star_inv_def by blast
  have old: "join_d (J ! i) = (if pivot = 1 then MAX_D else mat_at dism (join_c (J ! i), 0))"
    if "pivot \<le> i" "i < n" for i
    using inv that unfolding star_inv_def by blast
  have lR: "length ?R = n" using l by simp
  have ms: "mset (map join_c ?S) = mset [0..<n]"
    using mset_c_step[of pivot J mi] m l pl mi by simp
  have S_nth: "?S ! k = (if k = mi then ?R ! pivot else if k = pivot then ?R ! mi else ?R ! k)"
    if "k < n" for k
    using swap_at_nth[of pivot ?R mi k] lR pl mi that by simp
  have R_low: "?R ! k = J ! k" if "k < pivot" for k
    using that pl l by (simp add: relaxed_nth)
  have S_low: "?S ! k = J ! k" if "k < pivot" for k
  proof -
    have "k < n" "k \<noteq> mi" "k \<noteq> pivot" using that pl mi by simp_all
    then show ?thesis using S_nth[of k] R_low[OF that] by simp
  qed
  have zero: "join_c (?S ! 0) = 0" "join_p (?S ! 0) = 0"
    using S_low[of 0] p1 z by simp_all
  have Pn: "?P < n" using perm_c_bounds(3)[OF m, of "pivot - 1"] pl by simp
  have RC: "join_c (?R ! i) = join_c (J ! i) \<and> join_p (?R ! i) = 0
            \<and> join_d (?R ! i) = mat_at dism (join_c (J ! i), 0)"
    if hi: "pivot \<le> i" "i < n" for i
  proof -
    let ?c = "join_c (J ! i)"
    have i1: "1 \<le> i" using hi p1 by simp
    have c1: "1 \<le> ?c" by (rule position_nonzero[OF m z(1) i1 hi(2)])
    have cn: "?c < n" by (rule perm_c_bounds(3)[OF m hi(2)])
    have key: "key_of sequences dism ?c ?P = mat_at dism (?c, ?P)"
      using key_of_table[of ?c dism ?P sequences] dd cn Pn by simp
    have Ri: "?R ! i = relax_join (mat_at dism (?c, ?P)) ?P (J ! i)"
      using hi l key by (simp add: relaxed_nth)
    show ?thesis
    proof (cases "pivot = 1")
      case True
      then have P0: "?P = 0" using z by simp
      have "join_d (J ! i) = MAX_D" using old[OF hi] True by simp
      moreover have "mat_at dism (?c, 0) < MAX_D" using h2 c1 cn by simp
      ultimately show ?thesis unfolding Ri P0 by (simp add: relax_join_def)
    next
      case False
      have od: "join_d (J ! i) = mat_at dism (?c, 0)" using old[OF hi] False by simp
      have "?P \<noteq> ?c"
      proof
        assume e: "?P = ?c"
        have "pivot - 1 < n" using pl by simp
        then have "pivot - 1 = i" using e by (rule position_unique[OF m _ hi(2)])
        then show False using hi(1) p1 by simp
      qed
      then have "\<not> mat_at dism (?c, ?P) < mat_at dism (?c, 0)" using h1 c1 cn Pn by simp
      then have "?R ! i = J ! i" unfolding Ri by (simp add: relax_join_def od)
      then show ?thesis using od p0[OF i1 hi(2)] by simp
    qed
  qed
  have src: "\<exists>j. j < n \<and> (?S ! i = J ! j \<and> j < pivot \<and> 1 \<le> j \<or> ?S ! i = ?R ! j \<and> pivot \<le> j)"
    if hi: "1 \<le> i" "i < n" for i
  proof (cases "i < pivot")
    case True
    then show ?thesis using S_low[OF True] hi by blast
  next
    case False
    show ?thesis
    proof (cases "i = mi")
      case True
      then have "?S ! i = ?R ! pivot" using S_nth[OF hi(2)] by simp
      then show ?thesis using pl by blast
    next
      case F: False
      show ?thesis
      proof (cases "i = pivot")
        case True
        then have "?S ! i = ?R ! mi" using S_nth[OF hi(2)] F by simp
        then show ?thesis using mi by blast
      next
        case G: False
        then have "?S ! i = ?R ! i" using S_nth[OF hi(2)] F by simp
        moreover have "pivot \<le> i" using False by simp
        ultimately show ?thesis using hi(2) by blast
      qed
    qed
  qed
  have a1: "join_p (?S ! i) = 0" if hi: "1 \<le> i" "i < n" for i
  proof -
    from src[OF hi] obtain j where
      j: "j < n" "?S ! i = J ! j \<and> j < pivot \<and> 1 \<le> j \<or> ?S ! i = ?R ! j \<and> pivot \<le> j" by blast
    from j(2) show ?thesis
    proof
      assume "?S ! i = J ! j \<and> j < pivot \<and> 1 \<le> j"
      then show ?thesis using p0[of j] j(1) by simp
    next
      assume "?S ! i = ?R ! j \<and> pivot \<le> j"
      then show ?thesis using RC[of j] j(1) by simp
    qed
  qed
  have a2: "join_d (?S ! i) = (if Suc pivot = 1 then MAX_D else mat_at dism (join_c (?S ! i), 0))"
    if hi: "Suc pivot \<le> i" "i < n" for i
  proof -
    have "\<exists>j. pivot \<le> j \<and> j < n \<and> ?S ! i = ?R ! j"
    proof (cases "i = mi")
      case True
      then have "?S ! i = ?R ! pivot" using S_nth[OF hi(2)] by simp
      then show ?thesis using pl by blast
    next
      case False
      then have "?S ! i = ?R ! i" using S_nth[OF hi(2)] hi(1) by simp
      moreover have "pivot \<le> i" using hi(1) by simp
      ultimately show ?thesis using hi(2) by blast
    qed
    then obtain j where j: "pivot \<le> j" "j < n" "?S ! i = ?R ! j" by blast
    have "Suc pivot \<noteq> 1" using p1 by simp
    then show ?thesis unfolding j(3) using RC[OF j(1,2)] by simp
  qed
  show ?thesis unfolding star_inv_def using ms zero a1 a2 by blast
qed

lemma star_inv_init:
  assumes "valid_shuffle n shuffled" "0 < n"
  shows "star_inv dism n 1 (init_joins (vertex_order n shuffled))"
proof -
  have l: "length (vertex_order n shuffled) = n" by (rule length_vertex_order[OF assms])
  show ?thesis
    unfolding star_inv_def
    using mset_vertex_order[OF assms] hd_vertex_order[OF assms(2), of shuffled] l assms(2)
    by simp
qed

lemma build_mst_star:
  assumes n0: "0 < n" and dd: "rows dism = n" "cols dism = n" and li: "length input = n"
    and sh: "valid_shuffle n shuffled"
    and h1: "\<forall>c p. 1 \<le> c \<and> c < n \<and> p < n \<and> p \<noteq> c \<longrightarrow> \<not> mat_at dism (c, p) < mat_at dism (c, 0)"
    and h2: "\<forall>c. 1 \<le> c \<and> c < n \<longrightarrow> mat_at dism (c, 0) < MAX_D"
  shows "build_mst input dism shuffled None = Some (replicate n 0)"
proof -
  have "\<exists>J. prim_loop input dism [1..<n] (init_joins (vertex_order n shuffled)) = Some J \<and> length J = n
            \<and> star_inv dism n (max 1 n) J"
  proof (rule prim_invariant[where I = "star_inv dism n"])
    show "star_inv dism n 1 (init_joins (vertex_order n shuffled))" by (rule star_inv_init[OF sh n0])
    show "length (init_joins (vertex_order n shuffled)) = n"
      using length_vertex_order[OF sh n0] by simp
    show "(1::nat) \<le> 1" by simp
  next
    fix pivot J i
    assume a: "star_inv dism n pivot J" "length J = n" "pivot < n" "pivot \<le> i" "i < n"
    have m: "mset (map join_c J) = mset [0..<n]" using a(1) by (simp add: star_inv_def)
    have "join_c (J ! i) < n" using perm_c_bounds(3)[OF m a(5)] .
    moreover have "join_c (J ! (pivot - 1)) < n"
      using perm_c_bounds(3)[OF m, of "pivot - 1"] a(3) by simp
    ultimately show "join_key input dism (join_c (J ! i)) (join_c (J ! (pivot - 1))) \<noteq> None"
      using dd by (simp add: join_key_def)
  next
    fix pivot J mi
    assume "star_inv dism n pivot J" "length J = n" "1 \<le> pivot" "pivot < n" "pivot \<le> mi" "mi < n"
    then show "star_inv dism n (Suc pivot) (swap_at pivot mi (relaxed input dism pivot J))"
      using dd h1 h2 by (rule star_inv_step)
  qed
  then obtain J where J: "prim_loop input dism [1..<n] (init_joins (vertex_order n shuffled)) = Some J"
      "length J = n" "star_inv dism n (max 1 n) J" by blast
  have m: "mset (map join_c J) = mset [0..<n]" and z: "join_p (J ! 0) = 0"
    using J(3) by (simp_all add: star_inv_def)
  have pz: "join_p (J ! i) = 0" if "i < n" for i
  proof (cases "i = 0")
    case True
    then show ?thesis using z by simp
  next
    case False
    then have "1 \<le> i \<and> i < n" using that by simp
    then show ?thesis using J(3) unfolding star_inv_def by blast
  qed
  have lv: "length (init_joins (vertex_order n shuffled)) = n"
    using length_vertex_order[OF sh n0] by simp
  have b: "build_mst input dism shuffled None = Some (tree_of J)"
    unfolding build_mst_alt Let_def using J(1) dd li lv by simp
  have "tree_of J = replicate n 0"
  proof (rule nth_equalityI)
    show "length (tree_of J) = length (replicate n (0::nat))"
      using tree_of_nth(2)[OF m n0] by simp
  next
    fix c assume "c < length (tree_of J)"
    then have cn: "c < n" using tree_of_nth(2)[OF m n0] by simp
    from perm_c_bounds(4)[OF m cn] obtain i where i: "i < n" "join_c (J ! i) = c" by blast
    have "tree_of J ! c = join_p (J ! i)" using tree_of_nth(1)[OF m i(1)] i(2) by simp
    then show "tree_of J ! c = replicate n 0 ! c" using pz[OF i(1)] cn by simp
  qed
  then show ?thesis using b by simp
qed

lemma key_not_below_root:
  assumes "1 \<le> h" "h \<le> 2"
  shows "\<not> (push_bit 16 (of_nat h) OR of_nat 1 :: u32) < 65536"
proof -
  have "h = 1 \<or> h = 2" using assms by auto
  then show ?thesis by (elim disjE) simp_all
qed

lemma index_123: "1 \<le> c \<Longrightarrow> c < 4 \<Longrightarrow> c = 1 \<or> c = 2 \<or> c = (3::nat)"
  by auto

lemma index_0123: "p < 4 \<Longrightarrow> p = 0 \<or> p = 1 \<or> p = 2 \<or> p = (3::nat)"
  by auto

text \<open>
  Claim C7.  Four sequences of one length, a root and three pairwise different variants
  at Hamming distance 1 from it, one sample, no ancestor inference: whatever the
  shuffle, the consensus tree is the star with the root as parent of all three
  variants, every edge of distance 1 and weight 1.
\<close>

theorem star_topology:
  assumes len: "length r = L" "length v1 = L" "length v2 = L" "length v3 = L"
    and one: "mismatches r v1 = 1" "mismatches r v2 = 1" "mismatches r v3 = 1"
    and ne: "v1 \<noteq> v2" "v1 \<noteq> v3" "v2 \<noteq> v3"
    and sh: "mset order = mset [1, 2, 3]"
  shows "build_consensus_mst [r, v1, v2, v3] [(order, anc)] False
       = Some [\<lparr>parent = 0, child = 1, distance = 1, weight = Some 1\<rparr>,
               \<lparr>parent = 0, child = 2, distance = 1, weight = Some 1\<rparr>,
               \<lparr>parent = 0, child = 3, distance = 1, weight = Some 1\<rparr>]"
proof -
  let ?in = "[r, v1, v2, v3]"
  have l4: "length ?in = 4" by simp
  have u: "[1..<4] = [1, 2, 3]" by (simp add: upt_rec)
  have nem: "?in \<noteq> []" by simp
  have eq: "\<forall>a \<in> set ?in. length a = L" using len by simp
  have sh': "mset order = mset [1..<4]" unfolding u by (rule sh)
  have lk: "length ?in + (if False then k else 0) = 4" for k by simp
  have v: "valid_sample ?in False L (order, anc)"
    unfolding valid_sample_def lk using sh' by (simp add: list_all_iff)
  from consensus_single[OF nem eq v] obtain dism tree where
    r: "make_distance_matrix ?in = Some dism"
       "\<forall>i j. i < length ?in \<longrightarrow> j < length ?in \<longrightarrow> mat_at dism (i, j) =
                  push_bit 16 (of_nat (mismatches (?in ! i) (?in ! j)))
                  OR of_nat (mismatches (?in ! 0) (?in ! j))"
       "build_mst ?in dism (Some (fst (order, anc))) (if False then Some (snd (order, anc)) else None)
          = Some tree"
       "build_consensus_mst ?in [(order, anc)] False
          = Some (map (\<lambda>c. \<lparr>parent = the (real_ancestor tree (length ?in) (tree ! c)), child = c,
                             distance = drop_bit 16 (mat_at dism
                                (c, the (real_ancestor tree (length ?in) (tree ! c)))),
                             weight = Some 1\<rparr>) [1..<length ?in])"
    by blast
  from make_distance_matrix_equal_length[OF eq refl] r(1) have dd: "rows dism = 4" "cols dism = 4"
    by auto
  have entry: "mat_at dism (c, p) = push_bit 16 (of_nat (mismatches (?in ! c) (?in ! p)))
                  OR of_nat (mismatches (?in ! 0) (?in ! p))" if "c < 4" "p < 4" for c p
    using r(2) that by simp
  have root: "mismatches r (?in ! p) = 1" if "1 \<le> p" "p < 4" for p
    using index_123[OF that] one by (elim disjE) simp_all
  have lens: "length (?in ! p) = L" if "p < 4" for p
    using index_0123[OF that] len by (elim disjE) simp_all
  have distinct_v: "?in ! c \<noteq> ?in ! p" if "1 \<le> c" "c < 4" "1 \<le> p" "p < 4" "p \<noteq> c" for c p
    using index_123[OF that(1,2)] index_123[OF that(3,4)] that(5) ne
    by (elim disjE) auto
  have e0: "mat_at dism (c, 0) = 65536" if c: "1 \<le> c" "c < 4" for c
  proof -
    have "mismatches (?in ! c) r = 1" using root[OF c] by (simp add: mismatches_sym)
    then show ?thesis using entry[OF c(2), of 0] by (simp add: mismatches_self)
  qed
  have h1: "\<forall>c p. 1 \<le> c \<and> c < 4 \<and> p < 4 \<and> p \<noteq> c \<longrightarrow> \<not> mat_at dism (c, p) < mat_at dism (c, 0)"
  proof (intro allI impI)
    fix c p :: nat assume a: "1 \<le> c \<and> c < 4 \<and> p < 4 \<and> p \<noteq> c"
    then have c: "1 \<le> c" "c < 4" and p: "p < 4" "p \<noteq> c" by simp_all
    show "\<not> mat_at dism (c, p) < mat_at dism (c, 0)"
    proof (cases "p = 0")
      case True
      then show ?thesis by simp
    next
      case False
      then have p1: "1 \<le> p" by simp
      let ?h = "mismatches (?in ! c) (?in ! p)"
      have "?h \<noteq> 0"
        using mismatches_eq_0[of "?in ! c" "?in ! p"] lens[OF c(2)] lens[OF p(1)]
              distinct_v[OF c p1 p] by simp
      then have hl: "1 \<le> ?h" by simp
      have "?h \<le> mismatches (?in ! c) r + mismatches r (?in ! p)"
        using mismatches_triangle[of "?in ! c" r "?in ! p"] lens[OF c(2)] lens[OF p(1)] len(1) by simp
      then have hu: "?h \<le> 2" using root[OF c] root[OF p1 p(1)] by (simp add: mismatches_sym)
      have "mat_at dism (c, p) = push_bit 16 (of_nat ?h) OR of_nat 1"
        using entry[OF c(2) p(1)] root[OF p1 p(1)] by simp
      then show ?thesis using key_not_below_root[OF hl hu] e0[OF c] by simp
    qed
  qed
  have h2: "\<forall>c. 1 \<le> c \<and> c < 4 \<longrightarrow> mat_at dism (c, 0) < MAX_D"
    using e0 by (simp add: MAX_D_def)
  have vs: "valid_shuffle 4 (Some order)"
    unfolding valid_shuffle_def using sh' by simp
  have "build_mst ?in dism (Some order) None = Some (replicate 4 0)"
    by (rule build_mst_star[OF _ dd l4 vs h1 h2]) simp
  then have t: "tree = replicate 4 0" using r(3) by simp
  have ra: "real_ancestor (replicate 4 0) 4 0 = Some 0" by (simp add: real_ancestor.simps)
  have d1: "drop_bit 16 (mat_at dism (c, 0)) = 1" if "1 \<le> c" "c < 4" for c
    using e0[OF that] by (simp add: drop_bit_eq_div)
  have el: "replicate 4 (0::nat) ! c = 0" if "c < 4" for c using that by simp
  show ?thesis
    unfolding r(4) t l4 u
    by (simp add: el ra d1)
qed

text \<open>Claim C7, witness: the root AAAA with the variants CAAA, GAAA and AATA.\<close>

theorem star_topology_witness:
  "build_consensus_mst [''AAAA'', ''CAAA'', ''GAAA'', ''AATA''] [([3, 1, 2], [])] False
       = Some [\<lparr>parent = 0, child = 1, distance = 1, weight = Some 1\<rparr>,
               \<lparr>parent = 0, child = 2, distance = 1, weight = Some 1\<rparr>,
               \<lparr>parent = 0, child = 3, distance = 1, weight = Some 1\<rparr>]"
proof -
  have sh: "mset [3, 1, 2] = mset [1, 2, 3::nat]" by (simp add: add_mset_commute)
  show ?thesis
    by (rule star_topology[where L = 4, OF _ _ _ _ _ _ _ _ _ _ sh]) (simp_all add: mismatches_def)
qed

section \<open>Verification: the Fitch upward pass\<close>

subsection \<open>Vectors that differ in some labels only\<close>

lemma same_butD:
  assumes "same_but s s' ps" "i < length s"
  shows "bn_id (s' ! i) = bn_id (s ! i)" "bn_p (s' ! i) = bn_p (s ! i)"
    "bn_l (s' ! i) = bn_l (s ! i)" "bn_r (s' ! i) = bn_r (s ! i)"
    "i \<notin> set ps \<Longrightarrow> bseq (s' ! i) = bseq (s ! i)"
  using assms by (auto simp: same_but_def list_all_iff)

lemma same_but_length: "same_but s s' ps \<Longrightarrow> length s' = length s"
  by (simp add: same_but_def)

lemma same_butI:
  assumes "length s' = length s"
    and "\<And>i. i < length s \<Longrightarrow> bn_id (s' ! i) = bn_id (s ! i) \<and> bn_p (s' ! i) = bn_p (s ! i)
                     \<and> bn_l (s' ! i) = bn_l (s ! i) \<and> bn_r (s' ! i) = bn_r (s ! i)
                     \<and> (i \<in> set ps \<or> bseq (s' ! i) = bseq (s ! i))"
  shows "same_but s s' ps"
  using assms by (simp add: same_but_def list_all_iff)

lemma same_but_refl: "same_but s s ps"
  by (rule same_butI) simp_all

lemma same_but_trans:
  assumes "same_but s s1 ps" "same_but s1 s2 qs" "set ps \<subseteq> set rs" "set qs \<subseteq> set rs"
  shows "same_but s s2 rs"
proof (rule same_butI)
  show "length s2 = length s" using same_but_length[OF assms(1)] same_but_length[OF assms(2)] by simp
next
  fix i assume i: "i < length s"
  then have i1: "i < length s1" using assms(1) by (simp add: same_but_def)
  note a = same_butD(1-5)[OF assms(1) i]
  note b = same_butD(1-5)[OF assms(2) i1]
  have "i \<in> set rs \<or> bseq (s2 ! i) = bseq (s ! i)"
  proof (cases "i \<in> set ps \<or> i \<in> set qs")
    case True
    then show ?thesis using assms(3,4) by auto
  next
    case False
    then show ?thesis using a(5) b(5) by simp
  qed
  then show "bn_id (s2 ! i) = bn_id (s ! i) \<and> bn_p (s2 ! i) = bn_p (s ! i)
                     \<and> bn_l (s2 ! i) = bn_l (s ! i) \<and> bn_r (s2 ! i) = bn_r (s ! i)
                     \<and> (i \<in> set rs \<or> bseq (s2 ! i) = bseq (s ! i))"
    using a(1-4) b(1-4) by simp
qed

lemma top_of_in_positions: "top_of t \<in> set (positions t)"
  by (cases t) simp_all

lemma inner_subset: "set (inner t) \<subseteq> set (positions t)"
  by (induction t) auto

lemma inner_disjoint:
  "set (positions ta) \<inter> set (positions tb) = {} \<Longrightarrow> set (inner ta) \<inter> set (positions tb) = {}"
  using inner_subset[of ta] by auto

lemma inner_not_in: "k \<notin> set (positions t) \<Longrightarrow> k \<notin> set (inner t)"
  using inner_subset[of t] by auto

lemma holds_top: "holds s par t \<Longrightarrow> top_of t < length s \<and> bn_p (s ! top_of t) = par"
  by (cases t) simp_all

lemma holds_positions: "holds s par t \<Longrightarrow> i \<in> set (positions t) \<Longrightarrow> i < length s"
  by (induction t arbitrary: par) auto

lemma holds_same_but:
  assumes "same_but s s' ps"
  shows "holds s par t \<Longrightarrow> holds s' par t"
proof (induction t arbitrary: par)
  case (Tip k)
  then show ?case using same_butD[OF assms, of k] same_but_length[OF assms] by simp
next
  case (Only_l k t)
  then show ?case using same_butD[OF assms, of k] same_but_length[OF assms] by simp
next
  case (Only_r k t)
  then show ?case using same_butD[OF assms, of k] same_but_length[OF assms] by simp
next
  case (Both k ta tb)
  then show ?case using same_butD[OF assms, of k] same_but_length[OF assms] by simp
qed

lemma bseq_outside:
  assumes "same_but s s' ps" "holds s par t" "set ps \<inter> set (positions t) = {}"
    and "i \<in> set (positions t)"
  shows "bseq (s' ! i) = bseq (s ! i)"
proof -
  have "i < length s" using holds_positions[OF assms(2,4)] .
  moreover have "i \<notin> set ps" using assms(3,4) by auto
  ultimately show ?thesis using same_butD(5)[OF assms(1)] by simp
qed

lemma unlabelled_outside:
  assumes "same_but s s' ps"
  shows "holds s par t \<Longrightarrow> set ps \<inter> set (positions t) = {} \<Longrightarrow> unlabelled asserts s len t
         \<Longrightarrow> unlabelled asserts s' len t"
proof (induction t arbitrary: par)
  case (Tip k)
  then show ?case using bseq_outside[OF assms Tip.prems(1,2), of k] by simp
next
  case (Only_l k t)
  have d: "set ps \<inter> set (positions t) = {}" using Only_l.prems(2) by auto
  have h: "holds s (Some k) t" using Only_l.prems(1) by simp
  show ?case using bseq_outside[OF assms Only_l.prems(1,2), of k] Only_l.IH[OF h d] Only_l.prems(3)
    by simp
next
  case (Only_r k t)
  have d: "set ps \<inter> set (positions t) = {}" using Only_r.prems(2) by auto
  have h: "holds s (Some k) t" using Only_r.prems(1) by simp
  show ?case using bseq_outside[OF assms Only_r.prems(1,2), of k] Only_r.IH[OF h d] Only_r.prems(3)
    by simp
next
  case (Both k ta tb)
  have d: "set ps \<inter> set (positions ta) = {}" "set ps \<inter> set (positions tb) = {}"
    using Both.prems(2) by auto
  have h: "holds s (Some k) ta" "holds s (Some k) tb" using Both.prems(1) by simp_all
  show ?case
    using bseq_outside[OF assms Both.prems(1,2), of k] Both.IH(1)[OF h(1) d(1)] Both.IH(2)[OF h(2) d(2)]
      Both.prems(3) by simp
qed

lemma all_initialized_outside:
  assumes "same_but s s' ps"
  shows "holds s par t \<Longrightarrow> set ps \<inter> set (positions t) = {} \<Longrightarrow> all_initialized asserts s len t
         \<Longrightarrow> all_initialized asserts s' len t"
proof (induction t arbitrary: par)
  case (Tip k)
  then show ?case using bseq_outside[OF assms Tip.prems(1,2), of k] by simp
next
  case (Only_l k t)
  have d: "set ps \<inter> set (positions t) = {}" using Only_l.prems(2) by auto
  have h: "holds s (Some k) t" using Only_l.prems(1) by simp
  show ?case using bseq_outside[OF assms Only_l.prems(1,2), of k] Only_l.IH[OF h d] Only_l.prems(3)
    by simp
next
  case (Only_r k t)
  have d: "set ps \<inter> set (positions t) = {}" using Only_r.prems(2) by auto
  have h: "holds s (Some k) t" using Only_r.prems(1) by simp
  show ?case using bseq_outside[OF assms Only_r.prems(1,2), of k] Only_r.IH[OF h d] Only_r.prems(3)
    by simp
next
  case (Both k ta tb)
  have d: "set ps \<inter> set (positions ta) = {}" "set ps \<inter> set (positions tb) = {}"
    using Both.prems(2) by auto
  have h: "holds s (Some k) ta" "holds s (Some k) tb" using Both.prems(1) by simp_all
  show ?case
    using bseq_outside[OF assms Both.prems(1,2), of k] Both.IH(1)[OF h(1) d(1)] Both.IH(2)[OF h(2) d(2)]
      Both.prems(3) by simp
qed

lemma fitch_labelled_outside:
  assumes "same_but s s' ps"
  shows "holds s par t \<Longrightarrow> set ps \<inter> set (positions t) = {} \<Longrightarrow> fitch_labelled s t
         \<Longrightarrow> fitch_labelled s' t"
proof (induction t arbitrary: par)
  case (Tip k)
  then show ?case by simp
next
  case (Only_l k t)
  have d: "set ps \<inter> set (positions t) = {}" using Only_l.prems(2) by auto
  have h: "holds s (Some k) t" using Only_l.prems(1) by simp
  have "top_of t \<in> set (positions (Only_l k t))" using top_of_in_positions[of t] by simp
  then show ?case
    using bseq_outside[OF assms Only_l.prems(1,2), of k]
      bseq_outside[OF assms Only_l.prems(1,2), of "top_of t"] Only_l.IH[OF h d] Only_l.prems(3)
    by simp
next
  case (Only_r k t)
  have d: "set ps \<inter> set (positions t) = {}" using Only_r.prems(2) by auto
  have h: "holds s (Some k) t" using Only_r.prems(1) by simp
  have "top_of t \<in> set (positions (Only_r k t))" using top_of_in_positions[of t] by simp
  then show ?case
    using bseq_outside[OF assms Only_r.prems(1,2), of k]
      bseq_outside[OF assms Only_r.prems(1,2), of "top_of t"] Only_r.IH[OF h d] Only_r.prems(3)
    by simp
next
  case (Both k ta tb)
  have d: "set ps \<inter> set (positions ta) = {}" "set ps \<inter> set (positions tb) = {}"
    using Both.prems(2) by auto
  have h: "holds s (Some k) ta" "holds s (Some k) tb" using Both.prems(1) by simp_all
  have "top_of ta \<in> set (positions (Both k ta tb))" "top_of tb \<in> set (positions (Both k ta tb))"
    using top_of_in_positions[of ta] top_of_in_positions[of tb] by simp_all
  then have e: "bseq (s' ! k) = bseq (s ! k)" "bseq (s' ! top_of ta) = bseq (s ! top_of ta)"
    "bseq (s' ! top_of tb) = bseq (s ! top_of tb)"
    using bseq_outside[OF assms Both.prems(1,2), of k]
      bseq_outside[OF assms Both.prems(1,2), of "top_of ta"]
      bseq_outside[OF assms Both.prems(1,2), of "top_of tb"] by simp_all
  have f: "fitch_labelled s' ta" "fitch_labelled s' tb"
    using Both.IH(1)[OF h(1) d(1)] Both.IH(2)[OF h(2) d(2)] Both.prems(3) by simp_all
  show ?case using Both.prems(3) f unfolding fitch_labelled.simps e by blast
qed

lemma all_initialized_top:
  "all_initialized asserts s len t \<Longrightarrow> initialized asserts len (bseq (s ! top_of t))"
  by (cases t) simp_all

lemma initialized_length: "initialized asserts len label \<Longrightarrow> length label = len"
  by (simp add: initialized_def)

lemma initialized_nonzero: "initialized asserts len label \<Longrightarrow> asserts \<Longrightarrow> 0 \<notin> set label"
  by (simp add: initialized_def)

lemma all_initialized_length:
  "all_initialized asserts s len t \<Longrightarrow> length (bseq (s ! top_of t)) = len"
  using all_initialized_top[of asserts s len t] by (simp add: initialized_def)

lemma unlabelled_top:
  "unlabelled asserts s len t \<Longrightarrow> 0 < len \<Longrightarrow> (bseq (s ! top_of t) = []) = (\<forall>k. t \<noteq> Tip k)"
  by (cases t) (auto simp: initialized_def)

subsection \<open>The expression of the code and the rule on sets\<close>

lemma bit_u8_less: "bit (w :: u8) i \<Longrightarrow> i < 8"
  using bit_imp_le_length[of w i] by simp

lemma bases_and: "bases (a AND b) = bases a \<inter> bases b"
  by (auto simp: bases_def bit_and_iff)

lemma bases_or: "bases (a OR b) = bases a \<union> bases b"
  by (auto simp: bases_def bit_or_iff)

lemma bases_inject: "bases a = bases b \<Longrightarrow> a = b"
proof (rule bit_eqI)
  fix i
  assume e: "bases a = bases b"
  show "bit a i = bit b i"
  proof (cases "i < 8")
    case True
    then have "(i \<in> bases a) = bit a i" "(i \<in> bases b) = bit b i" by (simp_all add: bases_def)
    then show ?thesis using e by simp
  next
    case False
    then show ?thesis using bit_u8_less[of a i] bit_u8_less[of b i] by blast
  qed
qed

lemma bases_empty: "(bases w = {}) = (w = 0)"
proof
  assume "bases w = {}"
  moreover have "bases 0 = {}" by (simp add: bases_def)
  ultimately show "w = 0" using bases_inject[of w 0] by simp
next
  assume "w = 0"
  then show "bases w = {}" by (simp add: bases_def)
qed

text \<open>the expression of the code computes the rule, and nothing else does\<close>

lemma fitch_combine_rule: "fitch_rule a b c = (c = fitch_combine a b)"
proof -
  have r: "bases (fitch_combine a b)
           = (if bases a \<inter> bases b \<noteq> {} then bases a \<inter> bases b else bases a \<union> bases b)"
    using bases_empty[of "a AND b"] by (simp add: fitch_combine_def bases_and bases_or)
  show ?thesis
  proof
    assume "fitch_rule a b c"
    then have "bases c = bases (fitch_combine a b)" unfolding fitch_rule_def r by simp
    then show "c = fitch_combine a b" by (rule bases_inject)
  next
    assume "c = fitch_combine a b"
    then show "fitch_rule a b c" unfolding fitch_rule_def using r by simp
  qed
qed

lemma fitch_combine_nonzero: "a \<noteq> 0 \<Longrightarrow> fitch_combine a b \<noteq> 0"
  by (simp add: fitch_combine_def or_eq_0_iff)

lemma map2_fitch_combine_nonzero:
  "0 \<notin> set label_l \<Longrightarrow> 0 \<notin> set (map2 fitch_combine label_l label_r)"
proof (induction label_l arbitrary: label_r)
  case Nil
  then show ?case by simp
next
  case (Cons a label_l)
  then show ?case using fitch_combine_nonzero[of a] by (cases label_r) auto
qed

lemma map2_fitch_combine_rule:
  assumes "length label_l = length label_r"
  shows "list_all (\<lambda>i. fitch_rule (label_l ! i) (label_r ! i) (map2 fitch_combine label_l label_r ! i))
           [0..<length label_l]"
  using assms by (simp add: list_all_iff fitch_combine_rule)

subsection \<open>Unfolding the loops\<close>

lemma descend_l_stay:
  assumes "bn_l (s ! n) = None \<or> (\<exists>l. bn_l (s ! n) = Some l \<and> bseq (s ! l) \<noteq> [])"
  shows "descend_l s n = Some n"
  using assms by (subst descend_l.simps) auto

lemma descend_l_go:
  assumes "bn_l (s ! n) = Some l" "bseq (s ! l) = []"
  shows "descend_l s n = descend_l s l"
  using assms by (subst descend_l.simps) simp

lemma descend_go_l:
  assumes "bn_l (s ! n) = Some l" "bseq (s ! l) = []"
  shows "descend s n = descend s l"
  by (subst descend.simps, subst (2) descend.simps) (simp add: descend_l_go[OF assms])

lemma descend_go_r:
  assumes "descend_l s n = Some n" "bn_r (s ! n) = Some r" "bseq (s ! r) = []"
  shows "descend s n = descend s r"
  using assms by (subst descend.simps) simp

lemma descend_stay:
  assumes "descend_l s n = Some n"
    and "bn_r (s ! n) = None \<or> (\<exists>r. bn_r (s ! n) = Some r \<and> bseq (s ! r) \<noteq> [])"
  shows "descend s n = Some n"
  using assms by (subst descend.simps) auto

lemma loop_via_descend:
  assumes "Some a \<noteq> stop" "Some b \<noteq> stop" "descend s a = descend s b"
  shows "label_up_loop asserts s stop (Some a) = label_up_loop asserts s stop (Some b)"
  using assms by (subst label_up_loop.simps, subst (2) label_up_loop.simps) simp

lemma loop_label:
  assumes "Some k \<noteq> stop" "descend s k = Some k" "label_node asserts s k = Some s'"
  shows "label_up_loop asserts s stop (Some k) = label_up_loop asserts s' stop (bn_p (s' ! k))"
  using assms by (subst label_up_loop.simps) simp

lemma loop_exit: "label_up_loop asserts s stop stop = Some s"
  by (subst label_up_loop.simps) simp

text \<open>entering a child subtree from its parent and coming back\<close>

lemma enter_child:
  assumes IH: "\<And>s par. holds s par c \<Longrightarrow> distinct (positions c) \<Longrightarrow> unlabelled asserts s len c
            \<Longrightarrow> stop \<notin> Some ` set (positions c)
            \<Longrightarrow> \<exists>s'. same_but s s' (inner c) \<and> fitch_labelled s' c \<and> all_initialized asserts s' len c
                  \<and> label_up_loop asserts s stop (Some (top_of c)) = label_up_loop asserts s' stop par"
    and h: "holds s (Some k) c" and d: "distinct (positions c)" and u: "unlabelled asserts s len c"
    and st: "stop \<notin> Some ` set (positions c)" "Some k \<noteq> stop" and l0: "0 < len"
    and enter: "bseq (s ! top_of c) = [] \<Longrightarrow> descend s k = descend s (top_of c)"
  shows "\<exists>s'. same_but s s' (inner c) \<and> fitch_labelled s' c \<and> all_initialized asserts s' len c
           \<and> label_up_loop asserts s stop (Some k) = label_up_loop asserts s' stop (Some k)"
proof (cases "\<exists>a. c = Tip a")
  case True
  then obtain a where c: "c = Tip a" by blast
  have "same_but s s (inner c)" by (rule same_but_refl)
  moreover have "fitch_labelled s c" "all_initialized asserts s len c" using u c by simp_all
  ultimately show ?thesis by blast
next
  case False
  then have e: "bseq (s ! top_of c) = []" using unlabelled_top[OF u l0] by simp
  have tc: "Some (top_of c) \<noteq> stop" using st(1) top_of_in_positions[of c] by auto
  have "label_up_loop asserts s stop (Some k) = label_up_loop asserts s stop (Some (top_of c))"
    using st(2) tc enter[OF e] by (rule loop_via_descend)
  then show ?thesis using IH[OF h d u st(1)] by simp
qed

lemma label_update_same_but:
  assumes "k < length s"
  shows "same_but s (s[k := (s ! k)\<lparr>bseq := b\<rparr>]) [k]"
  using assms by (intro same_butI) (auto simp: nth_list_update)

subsection \<open>The pass visits a subtree and returns to its parent\<close>

lemma visit:
  assumes l0: "0 < len"
  shows "holds s par t \<Longrightarrow> distinct (positions t) \<Longrightarrow> unlabelled asserts s len t
     \<Longrightarrow> stop \<notin> Some ` set (positions t)
     \<Longrightarrow> \<exists>s'. same_but s s' (inner t) \<and> fitch_labelled s' t \<and> all_initialized asserts s' len t
           \<and> label_up_loop asserts s stop (Some (top_of t)) = label_up_loop asserts s' stop par"
proof (induction t arbitrary: s par)
  case (Tip k)
  have k: "bn_p (s ! k) = par" "bn_l (s ! k) = None" "bn_r (s ! k) = None" using Tip.prems(1) by simp_all
  have ks: "Some k \<noteq> stop" using Tip.prems(4) by auto
  have dl: "descend_l s k = Some k" by (rule descend_l_stay) (simp add: k)
  have ds: "descend s k = Some k" by (rule descend_stay[OF dl]) (simp add: k)
  have lab: "label_node asserts s k = Some s" by (simp add: label_node_def k)
  have "label_up_loop asserts s stop (Some k) = label_up_loop asserts s stop par"
    using loop_label[OF ks ds lab] k(1) by simp
  moreover have "same_but s s (inner (Tip k))" by (rule same_but_refl)
  ultimately show ?case using Tip.prems(3) by auto
next
  case (Only_l k c)
  have k: "k < length s" "bn_p (s ! k) = par" "bn_l (s ! k) = Some (top_of c)" "bn_r (s ! k) = None"
    and h: "holds s (Some k) c" using Only_l.prems(1) by simp_all
  have d: "distinct (positions c)" "k \<notin> set (positions c)" using Only_l.prems(2) by simp_all
  have u: "bseq (s ! k) = []" "unlabelled asserts s len c" using Only_l.prems(3) by simp_all
  have st: "stop \<notin> Some ` set (positions c)" "Some k \<noteq> stop" using Only_l.prems(4) by auto
  have enter: "descend s k = descend s (top_of c)" if "bseq (s ! top_of c) = []"
    using k(3) that by (rule descend_go_l)
  from enter_child[OF Only_l.IH h d(1) u(2) st l0 enter] obtain s1 where
    s1: "same_but s s1 (inner c)" "fitch_labelled s1 c" "all_initialized asserts s1 len c"
        "label_up_loop asserts s stop (Some k) = label_up_loop asserts s1 stop (Some k)" by blast
  have k1: "k < length s1" "bn_p (s1 ! k) = par" "bn_l (s1 ! k) = Some (top_of c)" "bn_r (s1 ! k) = None"
    using same_butD(2-4)[OF s1(1) k(1)] same_but_length[OF s1(1)] k by simp_all
  have h1: "holds s1 (Some k) c" using holds_same_but[OF s1(1) h] .
  have c1: "bseq (s1 ! top_of c) \<noteq> []" using all_initialized_length[OF s1(3)] l0 by auto
  have dl: "descend_l s1 k = Some k" by (rule descend_l_stay) (simp add: k1 c1)
  have ds: "descend s1 k = Some k" by (rule descend_stay[OF dl]) (simp add: k1)
  let ?s2 = "s1[k := (s1 ! k)\<lparr>bseq := bseq (s1 ! top_of c)\<rparr>]"
  have lab: "label_node asserts s1 k = Some ?s2" by (simp add: label_node_def k1)
  have p2: "bn_p (?s2 ! k) = par" using k1 by simp
  have loop: "label_up_loop asserts s stop (Some k) = label_up_loop asserts ?s2 stop par"
    using s1(4) loop_label[OF st(2) ds lab] p2 by simp
  have sb2: "same_but s1 ?s2 [k]" by (rule label_update_same_but[OF k1(1)])
  have sb: "same_but s ?s2 (inner (Only_l k c))"
    by (rule same_but_trans[OF s1(1) sb2]) auto
  have dk: "set [k] \<inter> set (positions c) = {}" using d(2) by simp
  have tk: "top_of c \<noteq> k" using d(2) top_of_in_positions[of c] by auto
  have f2: "fitch_labelled ?s2 c" by (rule fitch_labelled_outside[OF sb2 h1 dk s1(2)])
  have a2: "all_initialized asserts ?s2 len c" by (rule all_initialized_outside[OF sb2 h1 dk s1(3)])
  have bk: "bseq (?s2 ! k) = bseq (?s2 ! top_of c)" using k1(1) tk by simp
  have "initialized asserts len (bseq (?s2 ! k))" using bk all_initialized_top[OF a2] by simp
  then show ?case using sb f2 a2 bk loop by auto
next
  case (Only_r k c)
  have k: "k < length s" "bn_p (s ! k) = par" "bn_l (s ! k) = None" "bn_r (s ! k) = Some (top_of c)"
    and h: "holds s (Some k) c" using Only_r.prems(1) by simp_all
  have d: "distinct (positions c)" "k \<notin> set (positions c)" using Only_r.prems(2) by simp_all
  have u: "bseq (s ! k) = []" "unlabelled asserts s len c" using Only_r.prems(3) by simp_all
  have st: "stop \<notin> Some ` set (positions c)" "Some k \<noteq> stop" using Only_r.prems(4) by auto
  have dl0: "descend_l s k = Some k" by (rule descend_l_stay) (simp add: k)
  have enter: "descend s k = descend s (top_of c)" if "bseq (s ! top_of c) = []"
    using dl0 k(4) that by (rule descend_go_r)
  from enter_child[OF Only_r.IH h d(1) u(2) st l0 enter] obtain s1 where
    s1: "same_but s s1 (inner c)" "fitch_labelled s1 c" "all_initialized asserts s1 len c"
        "label_up_loop asserts s stop (Some k) = label_up_loop asserts s1 stop (Some k)" by blast
  have k1: "k < length s1" "bn_p (s1 ! k) = par" "bn_l (s1 ! k) = None" "bn_r (s1 ! k) = Some (top_of c)"
    using same_butD(2-4)[OF s1(1) k(1)] same_but_length[OF s1(1)] k by simp_all
  have h1: "holds s1 (Some k) c" using holds_same_but[OF s1(1) h] .
  have c1: "bseq (s1 ! top_of c) \<noteq> []" using all_initialized_length[OF s1(3)] l0 by auto
  have dl: "descend_l s1 k = Some k" by (rule descend_l_stay) (simp add: k1)
  have ds: "descend s1 k = Some k" by (rule descend_stay[OF dl]) (simp add: k1 c1)
  let ?s2 = "s1[k := (s1 ! k)\<lparr>bseq := bseq (s1 ! top_of c)\<rparr>]"
  have lab: "label_node asserts s1 k = Some ?s2" by (simp add: label_node_def k1)
  have p2: "bn_p (?s2 ! k) = par" using k1 by simp
  have loop: "label_up_loop asserts s stop (Some k) = label_up_loop asserts ?s2 stop par"
    using s1(4) loop_label[OF st(2) ds lab] p2 by simp
  have sb2: "same_but s1 ?s2 [k]" by (rule label_update_same_but[OF k1(1)])
  have sb: "same_but s ?s2 (inner (Only_r k c))"
    by (rule same_but_trans[OF s1(1) sb2]) auto
  have dk: "set [k] \<inter> set (positions c) = {}" using d(2) by simp
  have tk: "top_of c \<noteq> k" using d(2) top_of_in_positions[of c] by auto
  have f2: "fitch_labelled ?s2 c" by (rule fitch_labelled_outside[OF sb2 h1 dk s1(2)])
  have a2: "all_initialized asserts ?s2 len c" by (rule all_initialized_outside[OF sb2 h1 dk s1(3)])
  have bk: "bseq (?s2 ! k) = bseq (?s2 ! top_of c)" using k1(1) tk by simp
  have "initialized asserts len (bseq (?s2 ! k))" using bk all_initialized_top[OF a2] by simp
  then show ?case using sb f2 a2 bk loop by auto
next
  case (Both k ta tb)
  have k: "k < length s" "bn_p (s ! k) = par" "bn_l (s ! k) = Some (top_of ta)"
    "bn_r (s ! k) = Some (top_of tb)"
    and h: "holds s (Some k) ta" "holds s (Some k) tb" using Both.prems(1) by simp_all
  have d: "distinct (positions ta)" "distinct (positions tb)" "k \<notin> set (positions ta)"
    "k \<notin> set (positions tb)" "set (positions ta) \<inter> set (positions tb) = {}"
    using Both.prems(2) by auto
  have u: "bseq (s ! k) = []" "unlabelled asserts s len ta" "unlabelled asserts s len tb"
    using Both.prems(3) by simp_all
  have st: "stop \<notin> Some ` set (positions ta)" "stop \<notin> Some ` set (positions tb)" "Some k \<noteq> stop"
    using Both.prems(4) by auto
  text \<open>the left subtree\<close>
  have enter_a: "descend s k = descend s (top_of ta)" if "bseq (s ! top_of ta) = []"
    using k(3) that by (rule descend_go_l)
  from enter_child[OF Both.IH(1) h(1) d(1) u(2) st(1,3) l0 enter_a] obtain s1 where
    s1: "same_but s s1 (inner ta)" "fitch_labelled s1 ta" "all_initialized asserts s1 len ta"
        "label_up_loop asserts s stop (Some k) = label_up_loop asserts s1 stop (Some k)" by blast
  have k1: "k < length s1" "bn_p (s1 ! k) = par" "bn_l (s1 ! k) = Some (top_of ta)"
    "bn_r (s1 ! k) = Some (top_of tb)"
    using same_butD(2-4)[OF s1(1) k(1)] same_but_length[OF s1(1)] k by simp_all
  have h1: "holds s1 (Some k) ta" "holds s1 (Some k) tb"
    using holds_same_but[OF s1(1) h(1)] holds_same_but[OF s1(1) h(2)] by simp_all
  have u1: "unlabelled asserts s1 len tb"
    by (rule unlabelled_outside[OF s1(1) h(2) inner_disjoint[OF d(5)] u(3)])
  have a1: "bseq (s1 ! top_of ta) \<noteq> []" using all_initialized_length[OF s1(3)] l0 by auto
  text \<open>the right subtree\<close>
  have dl1: "descend_l s1 k = Some k" by (rule descend_l_stay) (simp add: k1 a1)
  have enter_b: "descend s1 k = descend s1 (top_of tb)" if "bseq (s1 ! top_of tb) = []"
    using dl1 k1(4) that by (rule descend_go_r)
  from enter_child[OF Both.IH(2) h1(2) d(2) u1 st(2,3) l0 enter_b] obtain s2 where
    s2: "same_but s1 s2 (inner tb)" "fitch_labelled s2 tb" "all_initialized asserts s2 len tb"
        "label_up_loop asserts s1 stop (Some k) = label_up_loop asserts s2 stop (Some k)" by blast
  have k2: "k < length s2" "bn_p (s2 ! k) = par" "bn_l (s2 ! k) = Some (top_of ta)"
    "bn_r (s2 ! k) = Some (top_of tb)"
    using same_butD(2-4)[OF s2(1) k1(1)] same_but_length[OF s2(1)] k1 by simp_all
  have h2: "holds s2 (Some k) ta" "holds s2 (Some k) tb"
    using holds_same_but[OF s2(1) h1(1)] holds_same_but[OF s2(1) h1(2)] by simp_all
  have "set (positions tb) \<inter> set (positions ta) = {}" using d(5) by auto
  then have d': "set (inner tb) \<inter> set (positions ta) = {}" by (rule inner_disjoint)
  have fa2: "fitch_labelled s2 ta" by (rule fitch_labelled_outside[OF s2(1) h1(1) d' s1(2)])
  have la2: "all_initialized asserts s2 len ta" by (rule all_initialized_outside[OF s2(1) h1(1) d' s1(3)])
  have na: "bseq (s2 ! top_of ta) \<noteq> []" "length (bseq (s2 ! top_of ta)) = len"
    using all_initialized_length[OF la2] l0 by auto
  have nb: "bseq (s2 ! top_of tb) \<noteq> []" "length (bseq (s2 ! top_of tb)) = len"
    using all_initialized_length[OF s2(3)] l0 by auto
  text \<open>the node itself\<close>
  have dl2: "descend_l s2 k = Some k" by (rule descend_l_stay) (simp add: k2 na)
  have ds2: "descend s2 k = Some k" by (rule descend_stay[OF dl2]) (simp add: k2 nb)
  let ?b = "map2 fitch_combine (bseq (s2 ! top_of ta)) (bseq (s2 ! top_of tb))"
  let ?s3 = "s2[k := (s2 ! k)\<lparr>bseq := ?b\<rparr>]"
  have zb: "\<not> (asserts \<and> 0 \<in> set ?b)"
    using initialized_nonzero[OF all_initialized_top[OF la2]] map2_fitch_combine_nonzero by blast
  have lab: "label_node asserts s2 k = Some ?s3"
    using zb by (simp add: label_node_def Let_def k2 na nb)
  have p3: "bn_p (?s3 ! k) = par" using k2 by simp
  have loop: "label_up_loop asserts s stop (Some k) = label_up_loop asserts ?s3 stop par"
    using s1(4) s2(4) loop_label[OF st(3) ds2 lab] p3 by simp
  have sb3: "same_but s2 ?s3 [k]" by (rule label_update_same_but[OF k2(1)])
  have sb12: "same_but s s2 (inner ta @ inner tb)"
    by (rule same_but_trans[OF s1(1) s2(1)]) auto
  have sb: "same_but s ?s3 (inner (Both k ta tb))"
    by (rule same_but_trans[OF sb12 sb3]) auto
  have dka: "set [k] \<inter> set (positions ta) = {}" and dkb: "set [k] \<inter> set (positions tb) = {}"
    using d(3,4) by simp_all
  have tk: "top_of ta \<noteq> k" "top_of tb \<noteq> k"
    using d(3,4) top_of_in_positions[of ta] top_of_in_positions[of tb] by auto
  have f3: "fitch_labelled ?s3 ta" "fitch_labelled ?s3 tb"
    using fitch_labelled_outside[OF sb3 h2(1) dka fa2] fitch_labelled_outside[OF sb3 h2(2) dkb s2(2)]
    by simp_all
  have a3: "all_initialized asserts ?s3 len ta" "all_initialized asserts ?s3 len tb"
    using all_initialized_outside[OF sb3 h2(1) dka la2] all_initialized_outside[OF sb3 h2(2) dkb s2(3)]
    by simp_all
  have ck: "bseq (?s3 ! k) = ?b" "bseq (?s3 ! top_of ta) = bseq (s2 ! top_of ta)"
    "bseq (?s3 ! top_of tb) = bseq (s2 ! top_of tb)" using k2(1) tk by simp_all
  have eq: "length (bseq (s2 ! top_of ta)) = length (bseq (s2 ! top_of tb))"
    using na(2) nb(2) by simp
  have lb: "length ?b = length (bseq (s2 ! top_of ta))" using eq by simp
  have rk: "list_all (\<lambda>i. fitch_rule (bseq (?s3 ! top_of ta) ! i) (bseq (?s3 ! top_of tb) ! i)
                             (bseq (?s3 ! k) ! i)) [0..<length (bseq (?s3 ! k))]"
    unfolding ck lb by (rule map2_fitch_combine_rule[OF eq])
  have lk: "length (bseq (?s3 ! k)) = length (bseq (?s3 ! top_of ta))"
    "length (bseq (?s3 ! k)) = length (bseq (?s3 ! top_of tb))"
    unfolding ck lb using eq by simp_all
  have ik: "initialized asserts len (bseq (?s3 ! k))"
    unfolding ck initialized_def using lb na(2) zb by simp
  have fl: "fitch_labelled ?s3 (Both k ta tb)" "all_initialized asserts ?s3 len (Both k ta tb)"
    using rk lk f3 a3 ik by simp_all
  show ?case
  proof (intro exI conjI)
    show "same_but s ?s3 (inner (Both k ta tb))" by (rule sb)
    show "fitch_labelled ?s3 (Both k ta tb)" by (rule fl(1))
    show "all_initialized asserts ?s3 len (Both k ta tb)" by (rule fl(2))
    show "label_up_loop asserts s stop (Some (top_of (Both k ta tb)))
          = label_up_loop asserts ?s3 stop par" using loop by simp
  qed
qed

subsection \<open>An example\<close>

text \<open>
  Three leaves \<open>0\<close>, \<open>1\<close>, \<open>2\<close> with the labels of \<^verbatim>\<open>"AC"\<close>, \<^verbatim>\<open>"AG"\<close> and \<^verbatim>\<open>"CG"\<close>, node \<open>3\<close> above
  \<open>0\<close> and \<open>1\<close>, and the root \<open>4\<close> above \<open>3\<close> and \<open>2\<close>: node \<open>3\<close> gets \<open>{A}\<close> and \<open>{C, G}\<close>,
  the root gets \<open>{A, C}\<close> and \<open>{G}\<close>.
\<close>

lemma fitch_label_up_example:
  "fitch_label_up True
     [\<lparr>bn_id = 0, bn_p = Some 3, bn_l = None, bn_r = None, bseq = [1, 2]\<rparr>,
      \<lparr>bn_id = 1, bn_p = Some 3, bn_l = None, bn_r = None, bseq = [1, 4]\<rparr>,
      \<lparr>bn_id = 2, bn_p = Some 4, bn_l = None, bn_r = None, bseq = [2, 4]\<rparr>,
      \<lparr>bn_id = 3, bn_p = Some 4, bn_l = Some 0, bn_r = Some 1, bseq = []\<rparr>,
      \<lparr>bn_id = 4, bn_p = None, bn_l = Some 3, bn_r = Some 2, bseq = []\<rparr>] 4
   = Some
     [\<lparr>bn_id = 0, bn_p = Some 3, bn_l = None, bn_r = None, bseq = [1, 2]\<rparr>,
      \<lparr>bn_id = 1, bn_p = Some 3, bn_l = None, bn_r = None, bseq = [1, 4]\<rparr>,
      \<lparr>bn_id = 2, bn_p = Some 4, bn_l = None, bn_r = None, bseq = [2, 4]\<rparr>,
      \<lparr>bn_id = 3, bn_p = Some 4, bn_l = Some 0, bn_r = Some 1, bseq = [1, 6]\<rparr>,
      \<lparr>bn_id = 4, bn_p = None, bn_l = Some 3, bn_r = Some 2, bseq = [3, 4]\<rparr>]"
  by code_simp

text \<open>
  Claim C9.  On a tree whose leaves carry labels of one non-zero length and whose inner
  nodes carry empty labels (the precondition the source states), \<^verbatim>\<open>fitch_label_up\<close>
  returns, changes nothing but the labels of the nodes that have a child, and leaves
  every node with two children labelled, at each sequence position, with the
  intersection of its children's bitmasks when that intersection is non-empty and
  otherwise with their union (\<open>fitch_rule\<close>, stated on the sets of bits), and every node
  with one child labelled with a copy of that child's label.  This holds with the
  \<^verbatim>\<open>assert\<close>s compiled out, and with them compiled in when no bitmask of a leaf is zero.
\<close>

theorem fitch_label_up_labels:
  assumes "holds s par t" and "distinct (positions t)" and "unlabelled asserts s len t" and "0 < len"
    and "par \<notin> Some ` set (positions t)"
  shows "\<exists>s'. fitch_label_up asserts s (top_of t) = Some s' \<and> same_but s s' (inner t)
           \<and> fitch_labelled s' t"
proof -
  have p: "bn_p (s ! top_of t) = par" using holds_top[OF assms(1)] by simp
  have np: "par \<noteq> Some (top_of t)" using assms(5) top_of_in_positions[of t] by auto
  from visit[OF assms(4) assms(1,2,3,5)] obtain s' where
    s': "same_but s s' (inner t)" "fitch_labelled s' t"
        "label_up_loop asserts s par (Some (top_of t)) = label_up_loop asserts s' par par" by blast
  have "label_up_loop asserts s' par par = Some s'" by (rule loop_exit)
  then have "fitch_label_up asserts s (top_of t) = Some s'"
    unfolding fitch_label_up_def p using np s'(3) by simp
  then show ?thesis using s'(1,2) by blast
qed

text \<open>Claim C9, witness: three leaves below two inner nodes.\<close>

theorem fitch_label_up_labels_witness:
  "\<exists>s'. fitch_label_up True
           [\<lparr>bn_id = 0, bn_p = Some 3, bn_l = None, bn_r = None, bseq = [1, 2]\<rparr>,
            \<lparr>bn_id = 1, bn_p = Some 3, bn_l = None, bn_r = None, bseq = [1, 4]\<rparr>,
            \<lparr>bn_id = 2, bn_p = Some 4, bn_l = None, bn_r = None, bseq = [2, 4]\<rparr>,
            \<lparr>bn_id = 3, bn_p = Some 4, bn_l = Some 0, bn_r = Some 1, bseq = []\<rparr>,
            \<lparr>bn_id = 4, bn_p = None, bn_l = Some 3, bn_r = Some 2, bseq = []\<rparr>]
           (top_of (Both 4 (Both 3 (Tip 0) (Tip 1)) (Tip 2))) = Some s'
        \<and> same_but
           [\<lparr>bn_id = 0, bn_p = Some 3, bn_l = None, bn_r = None, bseq = [1, 2]\<rparr>,
            \<lparr>bn_id = 1, bn_p = Some 3, bn_l = None, bn_r = None, bseq = [1, 4]\<rparr>,
            \<lparr>bn_id = 2, bn_p = Some 4, bn_l = None, bn_r = None, bseq = [2, 4]\<rparr>,
            \<lparr>bn_id = 3, bn_p = Some 4, bn_l = Some 0, bn_r = Some 1, bseq = []\<rparr>,
            \<lparr>bn_id = 4, bn_p = None, bn_l = Some 3, bn_r = Some 2, bseq = []\<rparr>]
           s' (inner (Both 4 (Both 3 (Tip 0) (Tip 1)) (Tip 2)))
        \<and> fitch_labelled s' (Both 4 (Both 3 (Tip 0) (Tip 1)) (Tip 2))"
  by (rule fitch_label_up_labels[where len = 2 and par = None]) (simp_all add: initialized_def)

end
